theory Spec2Isabelle
  imports Main "HOL-Library.Word" "HOL-Library.Monad_Syntax"
begin

unbundle bit_operations_syntax

section \<open>Machine types, sizes and raw memory\<close>

text \<open>
  The engine is C++ compiled for an LP64 target: \<open>int\<close> is a 32-bit and \<open>long\<close> a 64-bit
  two's-complement integer, \<open>char\<close> is one byte.  Both are words here; \<open>sint\<close> reads the
  signed value, \<open><s\<close> and \<open>\<le>s\<close> are the signed comparisons, and \<open>+\<close>, \<open>-\<close>, \<open>*\<close> keep the
  low 32 (64) bits, which is what the hardware does where C++ leaves signed overflow
  undefined and what the narrowing from \<open>size_t\<close> to \<open>int\<close> does.
\<close>

type_synonym byte = "8 word"
type_synonym int32 = "32 word"
type_synonym int64 = "64 word"

definition PAGE_SIZE :: nat where
  "PAGE_SIZE = 4096"

text \<open>
  \<open>sizeof(PageHeader)\<close> and \<open>sizeof(Slot)\<close> under the LP64 layout rules: the header is
  \<open>int, bool, (3 bytes padding), long, int, int\<close>, a slot is \<open>int, int, bool, (3 bytes padding)\<close>.
\<close>

definition sizeof_PageHeader :: nat where
  "sizeof_PageHeader = 24"

definition sizeof_Slot :: nat where
  "sizeof_Slot = 12"

definition dataAreaSize :: nat where
  "dataAreaSize = PAGE_SIZE - sizeof_PageHeader"

text \<open>
  A result \<open>None\<close> stands for an execution the C++ standard gives no meaning to (a copy
  that leaves its source or destination object, an index beyond a vector) or that ends in
  an exception of the library (\<open>vector::resize\<close> beyond \<open>max_size\<close>).
\<close>

text \<open>
  \<open>memcpy dst d src s n\<close> copies \<open>n\<close> bytes from position \<open>s\<close> of \<open>src\<close> to position \<open>d\<close>
  of \<open>dst\<close> and returns the new \<open>dst\<close>.  The positions and the count are the exact
  integers of the call; a negative \<open>int\<close> count is an enormous \<open>size_t\<close>, hence out of
  bounds.  Source and destination are distinct values, so the same function serves for
  \<open>memmove\<close> within one array.
\<close>

definition memcpy :: "byte list \<Rightarrow> int \<Rightarrow> byte list \<Rightarrow> int \<Rightarrow> int \<Rightarrow> byte list option" where
  "memcpy dst d src s n =
     (if 0 \<le> d \<and> 0 \<le> s \<and> 0 \<le> n \<and> d + n \<le> int (length dst) \<and> s + n \<le> int (length src)
      then Some (take (nat d) dst @ take (nat n) (drop (nat s) src) @ drop (nat (d + n)) dst)
      else None)"

text \<open>Object representation of integers: host byte order, little-endian.\<close>

fun to_bytes :: "nat \<Rightarrow> 'a::len word \<Rightarrow> byte list" where
  "to_bytes 0 w = []"
| "to_bytes (Suc n) w = ucast w # to_bytes n (drop_bit 8 w)"

fun from_bytes :: "byte list \<Rightarrow> 'a::len word" where
  "from_bytes [] = 0"
| "from_bytes (b # bs) = ucast b OR push_bit 8 (from_bytes bs)"

definition bool_byte :: "bool \<Rightarrow> byte" where
  "bool_byte b = (if b then 1 else 0)"

definition byte_bool :: "byte list \<Rightarrow> bool" where
  "byte_bool bs = ((from_bytes bs :: byte) \<noteq> 0)"

section \<open>Page (page.h)\<close>

record Slot =
  offset :: int32
  length' :: int32
  isValid :: bool

record PageHeader =
  pageId :: int32
  dirty :: bool
  lsn :: int64
  freeSpaceOffset :: int32
  numberOfSlots :: int32

record Page =
  header :: PageHeader
  data :: "byte list"
  slotDirectory :: "Slot list"

text \<open>
  The bytes of a \<open>Slot\<close> and of a \<open>PageHeader\<close> as \<open>memcpy\<close> sees them.  Padding bytes have
  no determined value in C++; they are written as 0 and never read back.
\<close>

definition Slot_bytes :: "Slot \<Rightarrow> byte list" where
  "Slot_bytes s = to_bytes 4 (offset s) @ to_bytes 4 (length' s) @ [bool_byte (isValid s), 0, 0, 0]"

definition Slot_of_bytes :: "byte list \<Rightarrow> Slot" where
  "Slot_of_bytes bs =
     \<lparr>offset = from_bytes (take 4 bs), length' = from_bytes (take 4 (drop 4 bs)),
      isValid = byte_bool (take 1 (drop 8 bs))\<rparr>"

definition PageHeader_bytes :: "PageHeader \<Rightarrow> byte list" where
  "PageHeader_bytes h =
     to_bytes 4 (pageId h) @ [bool_byte (dirty h), 0, 0, 0] @ to_bytes 8 (lsn h)
       @ to_bytes 4 (freeSpaceOffset h) @ to_bytes 4 (numberOfSlots h)"

definition PageHeader_of_bytes :: "byte list \<Rightarrow> PageHeader" where
  "PageHeader_of_bytes bs =
     \<lparr>pageId = from_bytes (take 4 bs), dirty = byte_bool (take 1 (drop 4 bs)),
      lsn = from_bytes (take 8 (drop 8 bs)), freeSpaceOffset = from_bytes (take 4 (drop 16 bs)),
      numberOfSlots = from_bytes (take 4 (drop 20 bs))\<rparr>"

text \<open>The contiguous storage of \<open>std::vector<Slot>\<close>, as bytes and back.\<close>

definition vector_bytes :: "Slot list \<Rightarrow> byte list" where
  "vector_bytes dir = concat (map Slot_bytes dir)"

fun vector_of_bytes :: "nat \<Rightarrow> byte list \<Rightarrow> Slot list" where
  "vector_of_bytes 0 bs = []"
| "vector_of_bytes (Suc n) bs = Slot_of_bytes (take 12 bs) # vector_of_bytes n (drop 12 bs)"

text \<open>\<open>Page()\<close> and \<open>clear()\<close>.\<close>

definition Page_init :: Page where
  "Page_init =
     \<lparr>header = \<lparr>pageId = - 1, dirty = False, lsn = 0, freeSpaceOffset = 0, numberOfSlots = 0\<rparr>,
      data = replicate dataAreaSize 0, slotDirectory = []\<rparr>"

definition clear :: "Page \<Rightarrow> Page" where
  "clear p =
     p\<lparr>header := \<lparr>pageId = - 1, dirty = False, lsn = 0, freeSpaceOffset = 0, numberOfSlots = 0\<rparr>,
       data := replicate (length (data p)) 0, slotDirectory := []\<rparr>"

definition getPageId :: "Page \<Rightarrow> int32" where
  "getPageId p = pageId (header p)"

definition setPageId :: "Page \<Rightarrow> int32 \<Rightarrow> Page" where
  "setPageId p i = p\<lparr>header := (header p)\<lparr>pageId := i\<rparr>\<rparr>"

text \<open>
  \<open>getFreeSpace\<close>: \<open>numberOfSlots * sizeof(Slot)\<close> is computed in \<open>size_t\<close> and the
  difference narrowed to \<open>int\<close>; the low 32 bits of that are the 32-bit expression below.
\<close>

definition getFreeSpace :: "Page \<Rightarrow> int32" where
  "getFreeSpace p =
     (let dataAreaSize' = (of_nat dataAreaSize :: int32);
          slotDirStart = dataAreaSize' - numberOfSlots (header p) * of_nat sizeof_Slot
      in slotDirStart - freeSpaceOffset (header p))"

text \<open>
  \<open>insertRecord(record, length)\<close>: \<open>record\<close> is the caller's buffer.  The result is the
  returned \<open>int\<close> and the page afterwards.
\<close>

definition insertRecord :: "Page \<Rightarrow> byte list \<Rightarrow> int32 \<Rightarrow> (int32 \<times> Page) option" where
  "insertRecord p record len =
     (let requiredSpace = len + of_nat sizeof_Slot in
      if getFreeSpace p <s requiredSpace then Some (- 1, p)
      else do {
        d \<leftarrow> memcpy (data p) (sint (freeSpaceOffset (header p))) record 0 (sint len);
        let newSlot = \<lparr>offset = freeSpaceOffset (header p), length' = len, isValid = True\<rparr>;
        let h1 = (header p)\<lparr>numberOfSlots := numberOfSlots (header p) + 1\<rparr>;
        let h2 = h1\<lparr>freeSpaceOffset := freeSpaceOffset h1 + len\<rparr>;
        let h3 = h2\<lparr>dirty := True\<rparr>;
        Some (numberOfSlots h3 - 1,
              p\<lparr>header := h3, data := d, slotDirectory := slotDirectory p @ [newSlot]\<rparr>)
      })"

text \<open>
  \<open>getRecord(slotId, recordBuffer)\<close>: the result is the returned \<open>int\<close> and the caller's
  buffer afterwards.
\<close>

definition getRecord :: "Page \<Rightarrow> int32 \<Rightarrow> byte list \<Rightarrow> (int32 \<times> byte list) option" where
  "getRecord p slotId recordBuffer =
     (if slotId <s 0 \<or> numberOfSlots (header p) \<le>s slotId then Some (- 1, recordBuffer)
      else if length (slotDirectory p) \<le> nat (sint slotId) then None
      else let slot = slotDirectory p ! nat (sint slotId) in
        if \<not> isValid slot then Some (- 1, recordBuffer)
        else do {
          b \<leftarrow> memcpy recordBuffer 0 (data p) (sint (offset slot)) (sint (length' slot));
          Some (length' slot, b)
        })"

text \<open>
  The loop of \<open>deleteRecord\<close>, \<open>for (i = slotId; i < numberOfSlots; ++i)
  slotDirectory[i].offset -= recordLength\<close>, over the list of the values \<open>i\<close> takes.
\<close>

fun shift_offsets :: "Slot list \<Rightarrow> nat list \<Rightarrow> int32 \<Rightarrow> Slot list option" where
  "shift_offsets dir [] recordLength = Some dir"
| "shift_offsets dir (i # is) recordLength =
     (if i < length dir
      then shift_offsets (dir[i := (dir ! i)\<lparr>offset := offset (dir ! i) - recordLength\<rparr>]) is recordLength
      else None)"

text \<open>\<open>slotDirectory.erase(slotDirectory.begin() + i)\<close>, for \<open>i\<close> inside the vector.\<close>

definition erase :: "'a list \<Rightarrow> nat \<Rightarrow> 'a list" where
  "erase xs i = take i xs @ drop (Suc i) xs"

definition deleteRecord :: "Page \<Rightarrow> int32 \<Rightarrow> (bool \<times> Page) option" where
  "deleteRecord p slotId =
     (if slotId <s 0 \<or> numberOfSlots (header p) \<le>s slotId then Some (False, p)
      else if length (slotDirectory p) \<le> nat (sint slotId) then None
      else let slotToDelete = slotDirectory p ! nat (sint slotId) in
        if \<not> isValid slotToDelete then Some (False, p)
        else
          let recordOffset = offset slotToDelete;
              recordLength = length' slotToDelete;
              freeSpaceEnd = freeSpaceOffset (header p);
              bytesAfter = freeSpaceEnd - (recordOffset + recordLength)
          in do {
            d \<leftarrow> (if 0 <s bytesAfter
                  then memcpy (data p) (sint recordOffset) (data p)
                         (sint recordOffset + sint recordLength) (sint bytesAfter)
                  else Some (data p));
            let h1 = (header p)\<lparr>freeSpaceOffset := freeSpaceOffset (header p) - recordLength\<rparr>;
            let dir1 = erase (slotDirectory p) (nat (sint slotId));
            let h2 = h1\<lparr>numberOfSlots := numberOfSlots h1 - 1\<rparr>;
            dir2 \<leftarrow> shift_offsets dir1 [nat (sint slotId) ..< nat (sint (numberOfSlots h2))] recordLength;
            Some (True, p\<lparr>header := h2\<lparr>dirty := True\<rparr>, data := d, slotDirectory := dir2\<rparr>)
          })"

text \<open>
  \<open>serialize(buffer)\<close>: \<open>buffer\<close> is the caller's array as it is before the call; the
  bytes between the records and the slot directory keep what it held.
\<close>

definition serialize :: "Page \<Rightarrow> byte list \<Rightarrow> byte list option" where
  "serialize p buffer = do {
     b1 \<leftarrow> memcpy buffer 0 (PageHeader_bytes (header p)) 0 (int sizeof_PageHeader);
     b2 \<leftarrow> memcpy b1 (int sizeof_PageHeader) (data p) 0 (sint (freeSpaceOffset (header p)));
     let dataAreaSize' = (of_nat dataAreaSize :: int32);
     let slotDirSize = numberOfSlots (header p) * of_nat sizeof_Slot;
     let slotDirStart = dataAreaSize' - slotDirSize;
     memcpy b2 (int sizeof_PageHeader + sint slotDirStart) (vector_bytes (slotDirectory p)) 0
       (sint slotDirSize)
   }"

text \<open>
  \<open>resize(n)\<close> of the slot vector: new elements are value-initialised; a negative \<open>int\<close>
  is a \<open>size_t\<close> beyond \<open>max_size()\<close> and the call throws.
\<close>

definition resize :: "Slot list \<Rightarrow> int \<Rightarrow> Slot list option" where
  "resize dir n =
     (if n < 0 then None
      else Some (take (nat n) dir
                 @ replicate (nat n - length dir) \<lparr>offset = 0, length' = 0, isValid = False\<rparr>))"

definition deserialize :: "Page \<Rightarrow> byte list \<Rightarrow> Page option" where
  "deserialize p buffer = do {
     hb \<leftarrow> memcpy (PageHeader_bytes (header p)) 0 buffer 0 (int sizeof_PageHeader);
     let h = PageHeader_of_bytes hb;
     d \<leftarrow> memcpy (data p) 0 buffer (int sizeof_PageHeader) (sint (freeSpaceOffset h));
     let slotDirSize = numberOfSlots h * of_nat sizeof_Slot;
     let dataAreaSize' = (of_nat dataAreaSize :: int32);
     let slotDirStart = dataAreaSize' - slotDirSize;
     dir1 \<leftarrow> resize (slotDirectory p) (sint (numberOfSlots h));
     vb \<leftarrow> memcpy (vector_bytes dir1) 0 buffer (int sizeof_PageHeader + sint slotDirStart)
            (sint slotDirSize);
     Some (p\<lparr>header := h, data := d, slotDirectory := vector_of_bytes (length dir1) vb\<rparr>)
   }"

section \<open>DiskManager (diskmanager.h, diskmanager.cpp)\<close>

text \<open>
  Data members are named without their trailing underscore (\<open>numPages\<close> for
  \<open>numPages_\<close>).  The backing file is its size and its bytes by position (0 beyond the
  size); \<open>streamFailed\<close> is the error state of \<open>fileStream_\<close> (\<open>failbit\<close> or \<open>badbit\<close>),
  which no member function clears after construction: every later seek, read and write
  does nothing and leaves the stream failed.  The device itself does not fail: a call
  fails through the stream's state, a seek to a negative offset, or a read that reaches
  the end of the file before \<open>PAGE_SIZE\<close> bytes.
\<close>

record DiskManager =
  numPages :: int32
  fileBytes :: "nat \<Rightarrow> byte"
  fileSize :: nat
  streamFailed :: bool

text \<open>The private helper \<open>getOffset\<close>: the product in \<open>long\<close>.\<close>

definition getOffset :: "int32 \<Rightarrow> int64" where
  "getOffset pageId' = (scast pageId' :: int64) * of_nat PAGE_SIZE"

text \<open>
  What \<open>readPage\<close> and \<open>writePage\<close> compute instead, \<open>int offset = pageId * PAGE_SIZE\<close>:
  a product of two \<open>int\<close>s stored in an \<open>int\<close>.
\<close>

definition pageOffset :: "int32 \<Rightarrow> int32" where
  "pageOffset pageId' = pageId' * of_nat PAGE_SIZE"

definition readPage :: "DiskManager \<Rightarrow> int32 \<Rightarrow> Page \<Rightarrow> (bool \<times> DiskManager \<times> Page) option" where
  "readPage dm pageId' pg =
     (let off = pageOffset pageId' in
      if streamFailed dm then Some (False, dm, pg)
      else if off <s 0 then Some (False, dm\<lparr>streamFailed := True\<rparr>, pg)
      else if fileSize dm < nat (sint off) + PAGE_SIZE
        then Some (False, dm\<lparr>streamFailed := True\<rparr>, pg)
      else do {
        pg' \<leftarrow> deserialize pg (map (fileBytes dm) [nat (sint off) ..< nat (sint off) + PAGE_SIZE]);
        Some (True, dm, pg')
      })"

text \<open>\<open>fileStream_.write(buffer, PAGE_SIZE)\<close> at position \<open>pos\<close>; a hole reads as 0.\<close>

definition file_write :: "DiskManager \<Rightarrow> nat \<Rightarrow> byte list \<Rightarrow> DiskManager" where
  "file_write dm pos buffer =
     dm\<lparr>fileBytes := (\<lambda>i. if pos \<le> i \<and> i < pos + length buffer then buffer ! (i - pos)
                          else if fileSize dm \<le> i then 0 else fileBytes dm i),
        fileSize := max (fileSize dm) (pos + length buffer)\<rparr>"

text \<open>
  \<open>writePage(pageId, page)\<close>; \<open>buffer0\<close> is what the uninitialised local \<open>buffer\<close> holds
  when \<open>serialize\<close> is called.
\<close>

definition writePage :: "DiskManager \<Rightarrow> int32 \<Rightarrow> Page \<Rightarrow> byte list \<Rightarrow> (bool \<times> DiskManager) option" where
  "writePage dm pageId' pg buffer0 =
     (if pageId' = numPages dm \<or> pageId' <s numPages dm then
        let off = (if pageId' = numPages dm then pageOffset (numPages dm) else pageOffset pageId') in
        if streamFailed dm then Some (False, dm)
        else if off <s 0 then Some (False, dm\<lparr>streamFailed := True\<rparr>)
        else do {
          buffer \<leftarrow> serialize pg buffer0;
          let dm1 = file_write dm (nat (sint off)) buffer;
          Some (True, if pageId' = numPages dm then dm1\<lparr>numPages := numPages dm1 + 1\<rparr> else dm1)
        }
      else Some (False, dm))"

definition allocateNewPage :: "DiskManager \<Rightarrow> byte list \<Rightarrow> (int32 \<times> DiskManager) option" where
  "allocateNewPage dm buffer0 = do {
     let newPage = setPageId Page_init (numPages dm);
     (ok, dm') \<leftarrow> writePage dm (numPages dm) newPage buffer0;
     if ok then Some (numPages dm' - 1, dm') else Some (- 1, dm')
   }"

definition getNumberOfPages :: "DiskManager \<Rightarrow> int32" where
  "getNumberOfPages dm = numPages dm"

section \<open>BufferPool (bufferpool.h, bufferpool.cpp)\<close>

text \<open>
  A frame; \<open>lastAccessTime\<close> is a reading of \<open>std::chrono::steady_clock\<close>, in ticks.  The
  pool owns the frames and the page table and reaches its disk manager through a
  pointer; the disk manager's state is carried in the pool's.
\<close>

record Frame =
  page :: Page
  pinCount :: int32
  isDirty :: bool
  lastAccessTime :: nat

record BufferPool =
  poolSize :: int32
  diskManager :: DiskManager
  frames :: "Frame list"
  pageTable :: "int32 \<rightharpoonup> int32"

text \<open>
  \<open>std::find_if\<close> and \<open>std::min_element\<close> over a vector, as positions from \<open>begin()\<close>;
  the position \<open>length xs\<close> is \<open>end()\<close>.  \<open>min_element\<close> keeps the first of the smallest
  elements: it replaces its candidate only by an element that compares less.
\<close>

fun find_if :: "('a \<Rightarrow> bool) \<Rightarrow> 'a list \<Rightarrow> nat" where
  "find_if P [] = 0"
| "find_if P (x # xs) = (if P x then 0 else Suc (find_if P xs))"

fun min_element_loop :: "('a \<Rightarrow> 'a \<Rightarrow> bool) \<Rightarrow> nat \<Rightarrow> 'a \<Rightarrow> nat \<Rightarrow> 'a list \<Rightarrow> nat" where
  "min_element_loop cmp result r first [] = result"
| "min_element_loop cmp result r first (x # xs) =
     (if cmp x r then min_element_loop cmp first x (Suc first) xs
      else min_element_loop cmp result r (Suc first) xs)"

definition min_element :: "('a \<Rightarrow> 'a \<Rightarrow> bool) \<Rightarrow> 'a list \<Rightarrow> nat" where
  "min_element cmp xs = (case xs of [] \<Rightarrow> 0 | x # xs' \<Rightarrow> min_element_loop cmp 0 x 1 xs')"

text \<open>The comparison \<open>findVictim\<close> passes to \<open>min_element\<close>.\<close>

definition victim_less :: "Frame \<Rightarrow> Frame \<Rightarrow> bool" where
  "victim_less a b =
     (if pinCount a = 0 \<and> pinCount b \<noteq> 0 then True
      else if pinCount a \<noteq> 0 \<and> pinCount b = 0 then False
      else lastAccessTime a < lastAccessTime b)"

definition findVictim :: "Frame list \<Rightarrow> int32" where
  "findVictim fs =
     (let victimIt = min_element victim_less fs in
      if victimIt \<noteq> length fs \<and> pinCount (fs ! victimIt) = 0 then of_nat victimIt else - 1)"

text \<open>\<open>frames_[index]\<close> for an \<open>int\<close> index: the position, when it is inside the vector.\<close>

definition frame_index :: "Frame list \<Rightarrow> int32 \<Rightarrow> nat option" where
  "frame_index fs index =
     (if 0 \<le>s index \<and> nat (sint index) < length fs then Some (nat (sint index)) else None)"

text \<open>
  \<open>fixPage(pageId, isWrite)\<close>.  \<open>now\<close> is what \<open>steady_clock::now()\<close> returns in the call,
  \<open>buffer0\<close> the content of \<open>writePage\<close>'s local buffer before it is filled.  The result
  is the returned pointer, as the position of the frame whose page it points to
  (\<open>None\<close> for \<open>nullptr\<close>), and the pool afterwards.
\<close>

definition fixPage ::
  "BufferPool \<Rightarrow> int32 \<Rightarrow> bool \<Rightarrow> nat \<Rightarrow> byte list \<Rightarrow> (nat option \<times> BufferPool) option" where
  "fixPage bp pageId' isWrite now buffer0 =
     (case pageTable bp pageId' of
        Some index \<Rightarrow> do {
          i \<leftarrow> frame_index (frames bp) index;
          let f = frames bp ! i;
          let f1 = f\<lparr>pinCount := pinCount f + 1\<rparr>;
          let f2 = f1\<lparr>lastAccessTime := now\<rparr>;
          let f3 = (if isWrite then f2\<lparr>isDirty := True\<rparr> else f2);
          Some (Some i, bp\<lparr>frames := (frames bp)[i := f3]\<rparr>)
        }
      | None \<Rightarrow>
          let emptyIt = find_if (\<lambda>frame. pinCount frame = 0 \<and> getPageId (page frame) = - 1) (frames bp) in
          if emptyIt \<noteq> length (frames bp) then do {
            let index = (of_nat emptyIt :: int32);
            i \<leftarrow> frame_index (frames bp) index;
            (ok, dm, pg) \<leftarrow> readPage (diskManager bp) pageId' (page (frames bp ! i));
            let f = (frames bp ! i)\<lparr>page := pg\<rparr>;
            if \<not> ok then Some (None, bp\<lparr>diskManager := dm, frames := (frames bp)[i := f]\<rparr>)
            else
              let f1 = f\<lparr>pinCount := 1\<rparr>;
                  f2 = f1\<lparr>lastAccessTime := now\<rparr>;
                  f3 = f2\<lparr>isDirty := isWrite\<rparr>;
                  f4 = f3\<lparr>page := setPageId (page f3) pageId'\<rparr>
              in Some (Some i, bp\<lparr>diskManager := dm, frames := (frames bp)[i := f4],
                                  pageTable := (pageTable bp)(pageId' \<mapsto> index)\<rparr>)
          }
          else
            let index = findVictim (frames bp) in
            if index = - 1 then Some (None, bp)
            else do {
              i \<leftarrow> frame_index (frames bp) index;
              let victimPageId = getPageId (page (frames bp ! i));
              dm1 \<leftarrow> (if isDirty (frames bp ! i) \<and> victimPageId \<noteq> - 1
                      then map_option snd (writePage (diskManager bp) victimPageId (page (frames bp ! i)) buffer0)
                      else Some (diskManager bp));
              let pageTable1 = (pageTable bp)(victimPageId := None);
              (ok, dm2, pg) \<leftarrow> readPage dm1 pageId' (page (frames bp ! i));
              let f = (frames bp ! i)\<lparr>page := pg\<rparr>;
              if \<not> ok
              then Some (None, bp\<lparr>diskManager := dm2, frames := (frames bp)[i := f],
                                 pageTable := pageTable1\<rparr>)
              else
                let f1 = f\<lparr>pinCount := 1\<rparr>;
                    f2 = f1\<lparr>lastAccessTime := now\<rparr>;
                    f3 = f2\<lparr>isDirty := isWrite\<rparr>;
                    f4 = f3\<lparr>page := setPageId (page f3) pageId'\<rparr>
                in Some (Some i, bp\<lparr>diskManager := dm2, frames := (frames bp)[i := f4],
                                    pageTable := pageTable1(pageId' \<mapsto> index)\<rparr>)
            })"

text \<open>
  \<open>unfixPage(page, isDirty)\<close>: of the page pointed to, only its id is read.  \<open>now\<close> is the
  clock reading of the call.
\<close>

definition unfixPage :: "BufferPool \<Rightarrow> Page \<Rightarrow> bool \<Rightarrow> nat \<Rightarrow> BufferPool option" where
  "unfixPage bp pg isDirty' now =
     (let pageId' = getPageId pg in
      case pageTable bp pageId' of
        None \<Rightarrow> Some bp
      | Some index \<Rightarrow> do {
          i \<leftarrow> frame_index (frames bp) index;
          let f = frames bp ! i;
          let f1 = (if 0 <s pinCount f then f\<lparr>pinCount := pinCount f - 1\<rparr> else f);
          let f2 = (if isDirty' then f1\<lparr>isDirty := True\<rparr> else f1);
          let f3 = f2\<lparr>lastAccessTime := now\<rparr>;
          Some (bp\<lparr>frames := (frames bp)[i := f3]\<rparr>)
        })"

section \<open>Page states and their invariant\<close>

text \<open>
  \<open>tiles a dir b\<close>: the slots of \<open>dir\<close>, in directory order, are valid and lie end to
  end from byte \<open>a\<close> to byte \<open>b\<close> of the data area.
\<close>

fun tiles :: "int \<Rightarrow> Slot list \<Rightarrow> int \<Rightarrow> bool" where
  "tiles a [] b = (a = b)"
| "tiles a (s # ss) b =
     (isValid s \<and> sint (offset s) = a \<and> 0 \<le> sint (length' s) \<and> tiles (a + sint (length' s)) ss b)"

text \<open>
  The invariant of a page: the array has its declared size, the vector has
  \<open>numberOfSlots\<close> entries, the records tile \<open>data[0..freeSpaceOffset)\<close>, and records and
  slot directory fit the data area together.
\<close>

definition Page_inv :: "Page \<Rightarrow> bool" where
  "Page_inv p \<longleftrightarrow>
     length (data p) = dataAreaSize
     \<and> sint (numberOfSlots (header p)) = int (length (slotDirectory p))
     \<and> tiles 0 (slotDirectory p) (sint (freeSpaceOffset (header p)))
     \<and> sint (freeSpaceOffset (header p)) + 12 * int (length (slotDirectory p)) \<le> 4072"

text \<open>The page after the in-page compaction that removes slot \<open>i\<close>.\<close>

definition compacted :: "Page \<Rightarrow> nat \<Rightarrow> Page" where
  "compacted p i =
     (let off = sint (offset (slotDirectory p ! i));
          len = length' (slotDirectory p ! i);
          fso = sint (freeSpaceOffset (header p))
      in p\<lparr>header := (header p)\<lparr>freeSpaceOffset := freeSpaceOffset (header p) - len,
                                    numberOfSlots := numberOfSlots (header p) - 1,
                                    dirty := True\<rparr>,
           data := take (nat off) (data p)
                   @ take (nat (fso - (off + sint len))) (drop (nat (off + sint len)) (data p))
                   @ drop (nat (fso - sint len)) (data p),
           slotDirectory := take i (slotDirectory p)
                   @ map (\<lambda>s. s\<lparr>offset := offset s - len\<rparr>) (drop (Suc i) (slotDirectory p))\<rparr>)"

text \<open>
  Sequences of \<open>insertRecord\<close> and \<open>deleteRecord\<close> calls; a sequence has a final page
  when every call in it returns.
\<close>

datatype operation = InsertRecord "byte list" int32 | DeleteRecord int32

fun apply_operation :: "Page \<Rightarrow> operation \<Rightarrow> Page option" where
  "apply_operation p (InsertRecord record len) = map_option snd (insertRecord p record len)"
| "apply_operation p (DeleteRecord slotId) = map_option snd (deleteRecord p slotId)"

fun apply_operations :: "Page \<Rightarrow> operation list \<Rightarrow> Page option" where
  "apply_operations p [] = Some p"
| "apply_operations p (x # xs) =
     (case apply_operation p x of None \<Rightarrow> None | Some p' \<Rightarrow> apply_operations p' xs)"

text \<open>Every record in the directory has a length above 0.\<close>

definition positive_lengths :: "Page \<Rightarrow> bool" where
  "positive_lengths p \<longleftrightarrow> (\<forall>s \<in> set (slotDirectory p). 0 < sint (length' s))"

text \<open>
  Concrete pages: the records \<open>alpha\<close>, \<open>beta\<close>, \<open>gamma\<close> inserted in turn and slot 0
  deleted; the page before that deletion; a page whose directory is not in offset
  order, as \<open>deserialize\<close> yields from a file that holds it; and the page with two
  records of length 0.
\<close>

definition scenario :: "operation list" where
  "scenario = [InsertRecord [97, 108, 112, 104, 97] 5, InsertRecord [98, 101, 116, 97] 4,
               InsertRecord [103, 97, 109, 109, 97] 5, DeleteRecord 0]"

definition scenario_page :: Page where
  "scenario_page =
     \<lparr>header = \<lparr>pageId = - 1, dirty = True, lsn = 0, freeSpaceOffset = 9, numberOfSlots = 2\<rparr>,
      data = [98, 101, 116, 97, 103, 97, 109, 109, 97, 103, 97, 109, 109, 97] @ replicate 4058 0,
      slotDirectory = [\<lparr>offset = 0, length' = 4, isValid = True\<rparr>,
                       \<lparr>offset = 4, length' = 5, isValid = True\<rparr>]\<rparr>"

definition three_records :: Page where
  "three_records =
     \<lparr>header = \<lparr>pageId = - 1, dirty = True, lsn = 0, freeSpaceOffset = 14, numberOfSlots = 3\<rparr>,
      data = [97, 108, 112, 104, 97, 98, 101, 116, 97, 103, 97, 109, 109, 97] @ replicate 4058 0,
      slotDirectory = [\<lparr>offset = 0, length' = 5, isValid = True\<rparr>,
                       \<lparr>offset = 5, length' = 4, isValid = True\<rparr>,
                       \<lparr>offset = 9, length' = 5, isValid = True\<rparr>]\<rparr>"

definition unordered_page :: Page where
  "unordered_page =
     \<lparr>header = \<lparr>pageId = 0, dirty = False, lsn = 0, freeSpaceOffset = 9, numberOfSlots = 2\<rparr>,
      data = [97, 108, 112, 104, 97, 98, 101, 116, 97] @ replicate 4063 0,
      slotDirectory = [\<lparr>offset = 5, length' = 4, isValid = True\<rparr>,
                       \<lparr>offset = 0, length' = 5, isValid = True\<rparr>]\<rparr>"

definition two_empty_records :: Page where
  "two_empty_records =
     \<lparr>header = \<lparr>pageId = - 1, dirty = True, lsn = 0, freeSpaceOffset = 0, numberOfSlots = 2\<rparr>,
      data = replicate 4072 0,
      slotDirectory = [\<lparr>offset = 0, length' = 0, isValid = True\<rparr>,
                       \<lparr>offset = 0, length' = 0, isValid = True\<rparr>]\<rparr>"

section \<open>Disk managers and pools used as examples\<close>

text \<open>
  \<open>allocate_pages dm bufs\<close>: one \<open>allocateNewPage\<close> call after another, one for each
  element of \<open>bufs\<close> (the content of \<open>writePage\<close>'s local buffer in that call); the
  returned ids in order, and the disk manager at the end.
\<close>

fun allocate_pages :: "DiskManager \<Rightarrow> byte list list \<Rightarrow> (int32 list \<times> DiskManager) option" where
  "allocate_pages dm [] = Some ([], dm)"
| "allocate_pages dm (b # bs) = do {
     (r, dm1) \<leftarrow> allocateNewPage dm b;
     (rs, dm2) \<leftarrow> allocate_pages dm1 bs;
     Some (r # rs, dm2)
   }"

text \<open>
  Disk managers as the constructor leaves them (\<open>numPages_ = fileSize / PAGE_SIZE\<close>) on a
  file of eight zeroed pages, on a zeroed file of 3 GiB (786432 pages), and on a file of
  exactly 4 GiB (1048576 pages) whose every byte is 255.
\<close>

definition eight_pages :: DiskManager where
  "eight_pages = \<lparr>numPages = 8, fileBytes = (\<lambda>i. 0), fileSize = 32768, streamFailed = False\<rparr>"

definition three_gib_file :: DiskManager where
  "three_gib_file =
     \<lparr>numPages = 786432, fileBytes = (\<lambda>i. 0), fileSize = 3221225472, streamFailed = False\<rparr>"

definition four_gib_file :: DiskManager where
  "four_gib_file =
     \<lparr>numPages = 1048576, fileBytes = (\<lambda>i. 255), fileSize = 4294967296, streamFailed = False\<rparr>"

text \<open>
  An unpinned, clean frame that holds page \<open>pageId'\<close>, last used at time \<open>t\<close>; a pool
  of one such frame for page 7; a pool of two, page 1 used at time 5 and page 2 at time 4.
\<close>

definition resident_frame :: "int32 \<Rightarrow> nat \<Rightarrow> Frame" where
  "resident_frame pageId' t =
     \<lparr>page = setPageId Page_init pageId', pinCount = 0, isDirty = False, lastAccessTime = t\<rparr>"

definition pool_of_one :: BufferPool where
  "pool_of_one =
     \<lparr>poolSize = 1, diskManager = eight_pages, frames = [resident_frame 7 1],
      pageTable = [7 \<mapsto> 0]\<rparr>"

definition pool_of_two :: BufferPool where
  "pool_of_two =
     \<lparr>poolSize = 2, diskManager = eight_pages, frames = [resident_frame 1 5, resident_frame 2 4],
      pageTable = [1 \<mapsto> 0, 2 \<mapsto> 1]\<rparr>"

section \<open>Signed arithmetic inside the range\<close>

lemma sint_add_exact:
  "- (2 ^ 31) \<le> sint a + sint b \<Longrightarrow> sint a + sint b < 2 ^ 31 \<Longrightarrow> sint (a + b :: int32) = sint a + sint b"
  by (simp add: sint_word_ariths signed_take_bit_int_eq_self)

lemma sint_sub_exact:
  "- (2 ^ 31) \<le> sint a - sint b \<Longrightarrow> sint a - sint b < 2 ^ 31 \<Longrightarrow> sint (a - b :: int32) = sint a - sint b"
  by (simp add: sint_word_ariths signed_take_bit_int_eq_self)

lemma sint_mul_exact:
  "- (2 ^ 31) \<le> sint a * sint b \<Longrightarrow> sint a * sint b < 2 ^ 31 \<Longrightarrow> sint (a * b :: int32) = sint a * sint b"
  by (simp add: sint_word_ariths signed_take_bit_int_eq_self)

lemma sizes [simp]:
  "(of_nat dataAreaSize :: int32) = 4072" "(of_nat sizeof_Slot :: int32) = 12"
  "int dataAreaSize = 4072" "int sizeof_PageHeader = 24" "int PAGE_SIZE = 4096"
  by (simp_all add: dataAreaSize_def PAGE_SIZE_def sizeof_PageHeader_def sizeof_Slot_def)

lemma length_splice:
  assumes "0 \<le> d" "0 \<le> n" "d + n \<le> int (length dst)" "nat n \<le> length src'"
  shows "length (take (nat d) dst @ take (nat n) src' @ drop (nat (d + n)) dst) = length dst"
proof -
  have "nat (d + n) = nat d + nat n" using assms by (simp add: nat_add_distrib)
  moreover have "nat d + nat n \<le> length dst" using assms by linarith
  ultimately show ?thesis using assms by (auto simp add: min_def)
qed

section \<open>Records lying end to end\<close>

lemma tiles_le: "tiles a xs b \<Longrightarrow> a \<le> b"
proof (induction xs arbitrary: a)
  case Nil
  then show ?case by simp
next
  case (Cons s ss)
  then have "a + sint (length' s) \<le> b" "0 \<le> sint (length' s)" by auto
  then show ?case by simp
qed

lemma tiles_append:
  "tiles a (xs @ ys) b \<longleftrightarrow> (\<exists>m. tiles a xs m \<and> tiles m ys b)"
  by (induction xs arbitrary: a) auto

lemma tiles_split:
  "tiles a xs b \<Longrightarrow> i < length xs \<Longrightarrow>
     tiles a (take i xs) (sint (offset (xs ! i)))
     \<and> isValid (xs ! i) \<and> 0 \<le> sint (length' (xs ! i))
     \<and> tiles (sint (offset (xs ! i)) + sint (length' (xs ! i))) (drop (Suc i) xs) b"
proof (induction xs arbitrary: a i)
  case Nil
  then show ?case by simp
next
  case (Cons s ss)
  then show ?case by (cases i) auto
qed

lemma tiles_nth:
  assumes "tiles a xs b" "i < length xs"
  shows "isValid (xs ! i)" "a \<le> sint (offset (xs ! i))" "0 \<le> sint (length' (xs ! i))"
    "sint (offset (xs ! i)) + sint (length' (xs ! i)) \<le> b"
  using tiles_split [OF assms] tiles_le by blast+

lemma tiles_adjacent:
  "tiles a xs b \<Longrightarrow> Suc i < length xs \<Longrightarrow>
     sint (offset (xs ! i)) + sint (length' (xs ! i)) = sint (offset (xs ! Suc i))"
proof (induction xs arbitrary: a i)
  case Nil
  then show ?case by simp
next
  case (Cons s ss)
  show ?case
  proof (cases i)
    case 0
    with Cons.prems show ?thesis by (cases ss) auto
  next
    case (Suc k)
    with Cons show ?thesis by auto
  qed
qed

lemma tiles_ordered:
  assumes "tiles a xs b" "i < j" "j < length xs"
  shows "sint (offset (xs ! i)) + sint (length' (xs ! i)) \<le> sint (offset (xs ! j))"
proof -
  from assms have "tiles (sint (offset (xs ! i)) + sint (length' (xs ! i))) (drop (Suc i) xs) b"
    using tiles_split [of a xs b i] by simp
  moreover have "j - Suc i < length (drop (Suc i) xs)" using assms by simp
  ultimately have "sint (offset (xs ! i)) + sint (length' (xs ! i))
      \<le> sint (offset (drop (Suc i) xs ! (j - Suc i)))"
    by (rule tiles_nth(2))
  then show ?thesis using assms by simp
qed

lemma tiles_shift:
  "tiles (a + l) ys b \<Longrightarrow> 0 \<le> a \<Longrightarrow> sint lw = l \<Longrightarrow> 0 \<le> l \<Longrightarrow>
     tiles a (map (\<lambda>s. s\<lparr>offset := offset s - lw\<rparr>) ys) (b - l)"
proof (induction ys arbitrary: a)
  case Nil
  then show ?case by auto
next
  case (Cons s ss)
  from Cons.prems have s: "isValid s" "sint (offset s) = a + l" "0 \<le> sint (length' s)"
    and rest: "tiles (a + sint (length' s) + l) ss b"
    by (simp_all add: ac_simps)
  have "sint (offset s) < 2 ^ 31" using sint_lt [of "offset s"] by simp
  then have "sint (offset s - lw) = a"
    using s Cons.prems by (subst sint_sub_exact) auto
  moreover have "tiles (a + sint (length' s)) (map (\<lambda>s. s\<lparr>offset := offset s - lw\<rparr>) ss) (b - l)"
    using rest s Cons.prems by (intro Cons.IH) auto
  ultimately show ?case using s by simp
qed

lemma shift_offsets_upt:
  "i \<le> j \<Longrightarrow> j \<le> length dir \<Longrightarrow>
     shift_offsets dir [i..<j] l
       = Some (take i dir @ map (\<lambda>s. s\<lparr>offset := offset s - l\<rparr>) (take (j - i) (drop i dir)) @ drop j dir)"
proof (induction "j - i" arbitrary: i dir)
  case 0
  then show ?case by simp
next
  case (Suc k)
  then have ij: "i < j" and k: "k = j - Suc i" by simp_all
  let ?x = "(dir ! i)\<lparr>offset := offset (dir ! i) - l\<rparr>"
  have len: "Suc i \<le> j" "j \<le> length (dir[i := ?x])" using Suc.prems ij by simp_all
  have "shift_offsets dir [i..<j] l = shift_offsets (dir[i := ?x]) [Suc i..<j] l"
    using ij Suc.prems by (simp add: upt_conv_Cons)
  also have "\<dots> = Some (take (Suc i) (dir[i := ?x])
        @ map (\<lambda>s. s\<lparr>offset := offset s - l\<rparr>) (take (j - Suc i) (drop (Suc i) (dir[i := ?x])))
        @ drop j (dir[i := ?x]))"
    using Suc.hyps(1) [OF k len] .
  also have "take (Suc i) (dir[i := ?x]) = take i dir @ [?x]"
    using ij Suc.prems by (simp add: take_Suc_conv_app_nth)
  also have "drop (Suc i) (dir[i := ?x]) = drop (Suc i) dir" by simp
  also have "drop j (dir[i := ?x]) = drop j dir" using ij by simp
  finally have step: "shift_offsets dir [i..<j] l = Some ((take i dir @ [?x])
        @ map (\<lambda>s. s\<lparr>offset := offset s - l\<rparr>) (take (j - Suc i) (drop (Suc i) dir))
        @ drop j dir)" .
  have "j - i = Suc (j - Suc i)" using ij by simp
  moreover have "drop i dir = dir ! i # drop (Suc i) dir"
    using ij Suc.prems by (simp add: Cons_nth_drop_Suc)
  ultimately have "take (j - i) (drop i dir) = dir ! i # take (j - Suc i) (drop (Suc i) dir)"
    by simp
  with step show ?case by simp
qed

section \<open>insertRecord\<close>

lemma Page_inv_bounds:
  assumes "Page_inv p"
  shows "0 \<le> sint (freeSpaceOffset (header p))" "sint (freeSpaceOffset (header p)) \<le> 4072"
    "int (length (slotDirectory p)) \<le> 339" "sint (numberOfSlots (header p)) = int (length (slotDirectory p))"
    "length (data p) = 4072"
proof -
  from assms have t: "tiles 0 (slotDirectory p) (sint (freeSpaceOffset (header p)))"
    and b: "sint (freeSpaceOffset (header p)) + 12 * int (length (slotDirectory p)) \<le> 4072"
    and n: "sint (numberOfSlots (header p)) = int (length (slotDirectory p))"
    and d: "length (data p) = dataAreaSize"
    by (simp_all add: Page_inv_def)
  from t show f0: "0 \<le> sint (freeSpaceOffset (header p))" by (rule tiles_le)
  from b show "sint (freeSpaceOffset (header p)) \<le> 4072" by simp
  from f0 b show "int (length (slotDirectory p)) \<le> 339" by simp
  from n show "sint (numberOfSlots (header p)) = int (length (slotDirectory p))" .
  from d show "length (data p) = 4072" by (simp add: dataAreaSize_def PAGE_SIZE_def sizeof_PageHeader_def)
qed

lemma getFreeSpace_exact:
  assumes "Page_inv p"
  shows "sint (getFreeSpace p)
    = 4072 - 12 * int (length (slotDirectory p)) - sint (freeSpaceOffset (header p))"
proof -
  note b = Page_inv_bounds [OF assms]
  have m: "sint (numberOfSlots (header p) * 12) = 12 * int (length (slotDirectory p))"
    using b by (subst sint_mul_exact) simp_all
  have s: "sint (4072 - numberOfSlots (header p) * 12) = 4072 - 12 * int (length (slotDirectory p))"
    using b m by (subst sint_sub_exact) simp_all
  have "sint (4072 - numberOfSlots (header p) * 12 - freeSpaceOffset (header p))
      = 4072 - 12 * int (length (slotDirectory p)) - sint (freeSpaceOffset (header p))"
    using b s by (subst sint_sub_exact) simp_all
  then show ?thesis by (simp add: getFreeSpace_def)
qed

lemma insertRecord_full:
  assumes "Page_inv p" "0 \<le> sint len" "sint len \<le> 2147483635"
    and "sint (getFreeSpace p) < sint len + 12"
  shows "insertRecord p record len = Some (- 1, p)"
proof -
  have "sint (len + 12) = sint len + 12"
    using assms by (subst sint_add_exact) simp_all
  with assms show ?thesis by (simp add: insertRecord_def word_sless_alt)
qed

lemma insertRecord_fits:
  assumes "Page_inv p" "0 \<le> sint len" "sint len + 12 \<le> sint (getFreeSpace p)"
    and "nat (sint len) \<le> length record"
  shows "insertRecord p record len =
    Some (numberOfSlots (header p),
          p\<lparr>header := (header p)\<lparr>numberOfSlots := numberOfSlots (header p) + 1,
                                 freeSpaceOffset := freeSpaceOffset (header p) + len,
                                 dirty := True\<rparr>,
            data := take (nat (sint (freeSpaceOffset (header p)))) (data p)
                    @ take (nat (sint len)) record
                    @ drop (nat (sint (freeSpaceOffset (header p)) + sint len)) (data p),
            slotDirectory := slotDirectory p
                    @ [\<lparr>offset = freeSpaceOffset (header p), length' = len, isValid = True\<rparr>]\<rparr>)"
proof -
  note b = Page_inv_bounds [OF assms(1)]
  note f = getFreeSpace_exact [OF assms(1)]
  have l: "sint len \<le> 4060" using assms f b by simp
  have "sint (len + 12) = sint len + 12"
    using assms l by (subst sint_add_exact) simp_all
  then have nofull: "\<not> getFreeSpace p <s len + 12"
    using assms by (simp add: word_sless_alt)
  have "memcpy (data p) (sint (freeSpaceOffset (header p))) record 0 (sint len)
      = Some (take (nat (sint (freeSpaceOffset (header p)))) (data p)
                    @ take (nat (sint len)) record
                    @ drop (nat (sint (freeSpaceOffset (header p)) + sint len)) (data p))"
    using assms b f by (simp add: memcpy_def)
  with nofull show ?thesis by (simp add: insertRecord_def)
qed

lemma insertRecord_cases:
  assumes "Page_inv p" "insertRecord p record len = Some (r, p')"
  shows "(r = - 1 \<and> p' = p)
    \<or> (0 \<le> sint len \<and> sint len + 12 \<le> sint (getFreeSpace p) \<and> nat (sint len) \<le> length record)"
proof (cases "getFreeSpace p <s len + 12")
  case True
  with assms show ?thesis by (auto simp add: insertRecord_def)
next
  case False
  note b = Page_inv_bounds [OF assms(1)]
  note f = getFreeSpace_exact [OF assms(1)]
  from False assms(2) obtain d where
    "memcpy (data p) (sint (freeSpaceOffset (header p))) record 0 (sint len) = Some d"
    by (auto simp add: insertRecord_def Let_def split: Option.bind_splits)
  then have m: "0 \<le> sint len" "sint (freeSpaceOffset (header p)) + sint len \<le> 4072"
    "sint len \<le> int (length record)"
    using b by (auto simp add: memcpy_def split: if_splits)
  then have "sint (len + 12) = sint len + 12"
    using b by (subst sint_add_exact) simp_all
  with False have "sint len + 12 \<le> sint (getFreeSpace p)" by (simp add: word_sless_alt)
  with m show ?thesis by auto
qed

lemma insertRecord_inv:
  assumes "Page_inv p" "insertRecord p record len = Some (r, p')"
  shows "Page_inv p'"
proof -
  from insertRecord_cases [OF assms] show ?thesis
  proof
    assume "r = - 1 \<and> p' = p"
    with assms show ?thesis by simp
  next
    assume c: "0 \<le> sint len \<and> sint len + 12 \<le> sint (getFreeSpace p) \<and> nat (sint len) \<le> length record"
    note b = Page_inv_bounds [OF assms(1)]
    note f = getFreeSpace_exact [OF assms(1)]
    from c assms have p': "p' = p\<lparr>header := (header p)\<lparr>numberOfSlots := numberOfSlots (header p) + 1,
                                 freeSpaceOffset := freeSpaceOffset (header p) + len,
                                 dirty := True\<rparr>,
            data := take (nat (sint (freeSpaceOffset (header p)))) (data p)
                    @ take (nat (sint len)) record
                    @ drop (nat (sint (freeSpaceOffset (header p)) + sint len)) (data p),
            slotDirectory := slotDirectory p
                    @ [\<lparr>offset = freeSpaceOffset (header p), length' = len, isValid = True\<rparr>]\<rparr>"
      using insertRecord_fits [of p len "record"] by auto
    have fso: "sint (freeSpaceOffset (header p) + len) = sint (freeSpaceOffset (header p)) + sint len"
      using c b f by (subst sint_add_exact) simp_all
    have n: "sint (numberOfSlots (header p) + 1) = int (length (slotDirectory p)) + 1"
      using b by (subst sint_add_exact) simp_all
    have t: "tiles 0 (slotDirectory p
                    @ [\<lparr>offset = freeSpaceOffset (header p), length' = len, isValid = True\<rparr>])
               (sint (freeSpaceOffset (header p)) + sint len)"
      using assms(1) c by (auto simp add: tiles_append Page_inv_def)
    have d: "length (take (nat (sint (freeSpaceOffset (header p)))) (data p)
                    @ take (nat (sint len)) record
                    @ drop (nat (sint (freeSpaceOffset (header p)) + sint len)) (data p)) = dataAreaSize"
      using c b f by (subst length_splice) (simp_all add: dataAreaSize_def PAGE_SIZE_def sizeof_PageHeader_def)
    show ?thesis
      unfolding p' Page_inv_def using fso n t d c f by simp
  qed
qed

section \<open>deleteRecord\<close>

lemma erase_shift:
  assumes "i < length dir"
  shows "shift_offsets (erase dir i) [i..<length dir - 1] l
    = Some (take i dir @ map (\<lambda>s. s\<lparr>offset := offset s - l\<rparr>) (drop (Suc i) dir))"
proof -
  have len: "length (erase dir i) = length dir - 1"
    using assms by (simp add: erase_def)
  have "shift_offsets (erase dir i) [i..<length dir - 1] l
      = Some (take i (erase dir i)
              @ map (\<lambda>s. s\<lparr>offset := offset s - l\<rparr>) (take (length dir - 1 - i) (drop i (erase dir i)))
              @ drop (length dir - 1) (erase dir i))"
    using assms len by (intro shift_offsets_upt) simp_all
  moreover have "take i (erase dir i) = take i dir"
    using assms by (simp add: erase_def)
  moreover have "drop i (erase dir i) = drop (Suc i) dir"
    using assms by (simp add: erase_def)
  moreover have "drop (length dir - 1) (erase dir i) = []"
    using len by simp
  ultimately show ?thesis by simp
qed

lemma deleteRecord_effect:
  fixes p :: Page and slotId :: int32
  defines "i \<equiv> nat (sint slotId)"
  defines "off \<equiv> offset (slotDirectory p ! i)" and "len \<equiv> length' (slotDirectory p ! i)"
  defines "fso \<equiv> freeSpaceOffset (header p)"
  assumes range: "0 \<le> sint slotId" "sint slotId < sint (numberOfSlots (header p))"
    and size: "sint (numberOfSlots (header p)) = int (length (slotDirectory p))"
    and valid: "isValid (slotDirectory p ! i)"
    and region: "0 \<le> sint off" "0 \<le> sint len" "sint off + sint len \<le> sint fso"
      "sint fso \<le> int (length (data p))"
  shows "deleteRecord p slotId = Some (True, compacted p i)"
proof -
  have i: "i < length (slotDirectory p)" using range size by (simp add: i_def)
  have inrange: "\<not> (slotId <s 0 \<or> numberOfSlots (header p) \<le>s slotId)"
    using range by (simp add: word_sless_alt word_sle_eq)
  have ol: "sint (off + len) = sint off + sint len"
    using region sint_lt [of fso] by (subst sint_add_exact) simp_all
  have ba: "sint (fso - (off + len)) = sint fso - (sint off + sint len)"
    using region ol sint_lt [of fso] by (subst sint_sub_exact) simp_all
  let ?d = "take (nat (sint off)) (data p)
                    @ take (nat (sint fso - (sint off + sint len))) (drop (nat (sint off + sint len)) (data p))
                    @ drop (nat (sint fso - sint len)) (data p)"
  have d: "(if 0 <s fso - (off + len)
            then memcpy (data p) (sint off) (data p) (sint off + sint len) (sint (fso - (off + len)))
            else Some (data p)) = Some ?d"
  proof (cases "0 <s fso - (off + len)")
    case True
    have "sint off + (sint fso - (sint off + sint len)) = sint fso - sint len" by simp
    with True show ?thesis using region ba by (simp add: memcpy_def)
  next
    case False
    then have "sint fso = sint off + sint len"
      using region ba by (simp add: word_sless_alt)
    with False show ?thesis using region by simp
  qed
  have n1: "sint (numberOfSlots (header p) - 1) = int (length (slotDirectory p)) - 1"
    using size i sint_lt [of "numberOfSlots (header p)"] by (subst sint_sub_exact) simp_all
  then have idx: "[i..<nat (sint (numberOfSlots (header p) - 1))] = [i..<length (slotDirectory p) - 1]"
    by (simp add: nat_diff_distrib')
  have sh: "shift_offsets (erase (slotDirectory p) i) [i..<nat (sint (numberOfSlots (header p) - 1))] len
      = Some (take i (slotDirectory p)
                    @ map (\<lambda>s. s\<lparr>offset := offset s - len\<rparr>) (drop (Suc i) (slotDirectory p)))"
    unfolding idx using i by (rule erase_shift)
  show ?thesis
    using inrange i valid d sh
    by (simp add: deleteRecord_def compacted_def Let_def i_def [symmetric] off_def [symmetric]
        len_def [symmetric] fso_def [symmetric])
qed

lemma deleteRecord_cases:
  assumes "Page_inv p"
  shows "(if slotId <s 0 \<or> numberOfSlots (header p) \<le>s slotId
          then deleteRecord p slotId = Some (False, p)
          else nat (sint slotId) < length (slotDirectory p)
            \<and> deleteRecord p slotId = Some (True, compacted p (nat (sint slotId))))"
proof (cases "slotId <s 0 \<or> numberOfSlots (header p) \<le>s slotId")
  case True
  then show ?thesis by (simp add: deleteRecord_def)
next
  case False
  note b = Page_inv_bounds [OF assms]
  from False have r: "0 \<le> sint slotId" "sint slotId < sint (numberOfSlots (header p))"
    by (simp_all add: word_sless_alt word_sle_eq)
  then have i: "nat (sint slotId) < length (slotDirectory p)" using b by simp
  from assms have t: "tiles 0 (slotDirectory p) (sint (freeSpaceOffset (header p)))"
    by (simp add: Page_inv_def)
  note s = tiles_nth [OF t i]
  have "deleteRecord p slotId = Some (True, compacted p (nat (sint slotId)))"
    using r b s by (intro deleteRecord_effect) simp_all
  with False i show ?thesis by simp
qed

lemma compacted_inv:
  assumes "Page_inv p" "i < length (slotDirectory p)"
  shows "Page_inv (compacted p i)"
proof -
  let ?s = "slotDirectory p ! i"
  note b = Page_inv_bounds [OF assms(1)]
  from assms(1) have t: "tiles 0 (slotDirectory p) (sint (freeSpaceOffset (header p)))"
    by (simp add: Page_inv_def)
  note s = tiles_nth [OF t assms(2)]
  note sp = tiles_split [OF t assms(2)]
  have fso: "sint (freeSpaceOffset (header p) - length' ?s)
      = sint (freeSpaceOffset (header p)) - sint (length' ?s)"
    using s b by (subst sint_sub_exact) simp_all
  have n: "sint (numberOfSlots (header p) - 1) = int (length (slotDirectory p)) - 1"
    using b assms(2) by (subst sint_sub_exact) simp_all
  have "tiles (sint (offset ?s)) (map (\<lambda>s. s\<lparr>offset := offset s - length' ?s\<rparr>) (drop (Suc i) (slotDirectory p)))
      (sint (freeSpaceOffset (header p)) - sint (length' ?s))"
    using sp s by (intro tiles_shift) simp_all
  with sp have t': "tiles 0 (take i (slotDirectory p)
                  @ map (\<lambda>s. s\<lparr>offset := offset s - length' ?s\<rparr>) (drop (Suc i) (slotDirectory p)))
      (sint (freeSpaceOffset (header p)) - sint (length' ?s))"
    by (auto simp add: tiles_append)
  have l: "int (length (take i (slotDirectory p)
                  @ map (\<lambda>s. s\<lparr>offset := offset s - length' ?s\<rparr>) (drop (Suc i) (slotDirectory p))))
      = int (length (slotDirectory p)) - 1"
    using assms(2) by (simp add: min_def)
  have "sint (freeSpaceOffset (header p)) - sint (length' ?s)
      = sint (offset ?s) + (sint (freeSpaceOffset (header p)) - (sint (offset ?s) + sint (length' ?s)))"
    by simp
  moreover have "length (take (nat (sint (offset ?s))) (data p)
                  @ take (nat (sint (freeSpaceOffset (header p)) - (sint (offset ?s) + sint (length' ?s))))
                      (drop (nat (sint (offset ?s) + sint (length' ?s))) (data p))
                  @ drop (nat (sint (offset ?s) + (sint (freeSpaceOffset (header p)) - (sint (offset ?s) + sint (length' ?s))))) (data p))
      = length (data p)"
  proof (intro length_splice)
    show "nat (sint (freeSpaceOffset (header p)) - (sint (offset ?s) + sint (length' ?s)))
        \<le> length (drop (nat (sint (offset ?s) + sint (length' ?s))) (data p))"
      using s b by simp
  qed (use s b in simp_all)
  ultimately have d: "length (take (nat (sint (offset ?s))) (data p)
                  @ take (nat (sint (freeSpaceOffset (header p)) - (sint (offset ?s) + sint (length' ?s))))
                      (drop (nat (sint (offset ?s) + sint (length' ?s))) (data p))
                  @ drop (nat (sint (freeSpaceOffset (header p)) - sint (length' ?s))) (data p))
      = dataAreaSize"
    using b by (simp add: dataAreaSize_def PAGE_SIZE_def sizeof_PageHeader_def)
  have bound: "sint (freeSpaceOffset (header p)) - sint (length' ?s)
      + 12 * (int (length (slotDirectory p)) - 1) \<le> 4072"
    using assms(1) s by (simp add: Page_inv_def)
  show ?thesis
    unfolding compacted_def Page_inv_def Let_def
    using fso n t' d bound l
    by (simp del: length_append length_map length_take length_drop of_nat_add)
qed

lemma deleteRecord_inv:
  assumes "Page_inv p" "deleteRecord p slotId = Some (r, p')"
  shows "Page_inv p'"
  using deleteRecord_cases [OF assms(1), of slotId] assms compacted_inv [OF assms(1)]
  by (auto split: if_splits)

section \<open>Pages built from the empty page\<close>

lemma Page_init_inv: "Page_inv Page_init"
  by (simp add: Page_inv_def Page_init_def)

lemma apply_operation_inv:
  "Page_inv p \<Longrightarrow> apply_operation p x = Some p' \<Longrightarrow> Page_inv p'"
  by (cases x) (auto dest: insertRecord_inv deleteRecord_inv)

lemma apply_operations_inv:
  "Page_inv p \<Longrightarrow> apply_operations p xs = Some p' \<Longrightarrow> Page_inv p'"
proof (induction xs arbitrary: p)
  case Nil
  then show ?case by simp
next
  case (Cons x xs)
  then show ?case by (auto split: option.splits dest: apply_operation_inv)
qed

lemma tiles_cover:
  "tiles a xs b \<Longrightarrow> a \<le> k \<Longrightarrow> k < b \<Longrightarrow>
     \<exists>i<length xs. sint (offset (xs ! i)) \<le> k \<and> k < sint (offset (xs ! i)) + sint (length' (xs ! i))"
proof (induction xs arbitrary: a)
  case Nil
  then show ?case by simp
next
  case (Cons s ss)
  show ?case
  proof (cases "k < a + sint (length' s)")
    case True
    with Cons.prems have "sint (offset ((s # ss) ! 0)) \<le> k
        \<and> k < sint (offset ((s # ss) ! 0)) + sint (length' ((s # ss) ! 0))"
      by simp
    then show ?thesis by blast
  next
    case False
    with Cons.prems have "\<exists>i<length ss. sint (offset (ss ! i)) \<le> k
        \<and> k < sint (offset (ss ! i)) + sint (length' (ss ! i))"
      by (intro Cons.IH) auto
    then obtain i where "i < length ss" "sint (offset (ss ! i)) \<le> k"
      "k < sint (offset (ss ! i)) + sint (length' (ss ! i))" by blast
    then have "Suc i < length (s # ss) \<and> sint (offset ((s # ss) ! Suc i)) \<le> k
        \<and> k < sint (offset ((s # ss) ! Suc i)) + sint (length' ((s # ss) ! Suc i))"
      by simp
    then show ?thesis by blast
  qed
qed

text \<open>
  C4.  After any sequence of \<open>insertRecord\<close> and \<open>deleteRecord\<close> calls on the empty
  page, the records occupy \<open>data[0..freeSpaceOffset)\<close> without a gap (every byte below
  \<open>freeSpaceOffset\<close> belongs to a valid slot), every valid slot starts at or after 0 and
  ends at or before \<open>freeSpaceOffset\<close>, no two valid slots overlap, and
  \<open>freeSpaceOffset\<close> is inside the data array.
\<close>

theorem compaction_invariant:
  assumes "apply_operations Page_init ops = Some p"
  shows "(\<forall>k. 0 \<le> k \<and> k < sint (freeSpaceOffset (header p)) \<longrightarrow>
            (\<exists>i<length (slotDirectory p). isValid (slotDirectory p ! i)
               \<and> sint (offset (slotDirectory p ! i)) \<le> k
               \<and> k < sint (offset (slotDirectory p ! i)) + sint (length' (slotDirectory p ! i))))
       \<and> (\<forall>i<length (slotDirectory p). isValid (slotDirectory p ! i) \<longrightarrow>
            0 \<le> sint (offset (slotDirectory p ! i))
            \<and> 0 \<le> sint (length' (slotDirectory p ! i))
            \<and> sint (offset (slotDirectory p ! i)) + sint (length' (slotDirectory p ! i))
                \<le> sint (freeSpaceOffset (header p)))
       \<and> (\<forall>i<length (slotDirectory p). \<forall>j<length (slotDirectory p).
            i \<noteq> j \<and> isValid (slotDirectory p ! i) \<and> isValid (slotDirectory p ! j) \<longrightarrow>
            sint (offset (slotDirectory p ! i)) + sint (length' (slotDirectory p ! i))
              \<le> sint (offset (slotDirectory p ! j))
            \<or> sint (offset (slotDirectory p ! j)) + sint (length' (slotDirectory p ! j))
              \<le> sint (offset (slotDirectory p ! i)))
       \<and> sint (freeSpaceOffset (header p)) \<le> int (length (data p))"
proof -
  from assms have inv: "Page_inv p" using Page_init_inv by (rule apply_operations_inv [rotated])
  then have t: "tiles 0 (slotDirectory p) (sint (freeSpaceOffset (header p)))"
    by (simp add: Page_inv_def)
  have cover: "\<exists>i<length (slotDirectory p). isValid (slotDirectory p ! i)
               \<and> sint (offset (slotDirectory p ! i)) \<le> k
               \<and> k < sint (offset (slotDirectory p ! i)) + sint (length' (slotDirectory p ! i))"
    if "0 \<le> k" "k < sint (freeSpaceOffset (header p))" for k
    using tiles_cover [OF t that] tiles_nth(1) [OF t] by blast
  have bounds: "0 \<le> sint (offset (slotDirectory p ! i))
            \<and> 0 \<le> sint (length' (slotDirectory p ! i))
            \<and> sint (offset (slotDirectory p ! i)) + sint (length' (slotDirectory p ! i))
                \<le> sint (freeSpaceOffset (header p))"
    if "i < length (slotDirectory p)" for i
    using tiles_nth [OF t that] by simp
  have disjoint: "sint (offset (slotDirectory p ! i)) + sint (length' (slotDirectory p ! i))
              \<le> sint (offset (slotDirectory p ! j))
            \<or> sint (offset (slotDirectory p ! j)) + sint (length' (slotDirectory p ! j))
              \<le> sint (offset (slotDirectory p ! i))"
    if "i < length (slotDirectory p)" "j < length (slotDirectory p)" "i \<noteq> j" for i j
  proof (cases "i < j")
    case True
    then show ?thesis using tiles_ordered [OF t True that(2)] by simp
  next
    case False
    with that have "j < i" by simp
    then show ?thesis using tiles_ordered [OF t \<open>j < i\<close> that(1)] by simp
  qed
  have "sint (freeSpaceOffset (header p)) \<le> int (length (data p))"
    using Page_inv_bounds [OF inv] by simp
  with cover bounds disjoint show ?thesis by blast
qed

lemma scenario_run: "apply_operations Page_init scenario = Some scenario_page"
  by (simp add: scenario_def scenario_page_def insertRecord_def deleteRecord_def Page_init_def getFreeSpace_def memcpy_def
     word_sless_alt word_sle_eq dataAreaSize_def PAGE_SIZE_def sizeof_PageHeader_def sizeof_Slot_def erase_def Let_def
     upt_rec)

lemma compacted_positive:
  assumes "positive_lengths p"
  shows "positive_lengths (compacted p i)"
proof -
  have "set (take i (slotDirectory p)) \<subseteq> set (slotDirectory p)"
    "set (drop (Suc i) (slotDirectory p)) \<subseteq> set (slotDirectory p)"
    by (simp_all add: set_take_subset set_drop_subset)
  with assms show ?thesis
    by (auto simp add: positive_lengths_def compacted_def Let_def)
qed

lemma apply_operation_positive:
  assumes "Page_inv p" "positive_lengths p" "apply_operation p x = Some p'"
    and "\<And>record len. x = InsertRecord record len \<Longrightarrow> 0 <s len"
  shows "positive_lengths p'"
proof (cases x)
  case (InsertRecord rcd len)
  with assms obtain r where ins: "insertRecord p rcd len = Some (r, p')" by auto
  from assms(4) InsertRecord have pos: "0 < sint len" by (simp add: word_sless_alt)
  from insertRecord_cases [OF assms(1) ins] show ?thesis
  proof
    assume "r = - 1 \<and> p' = p"
    with assms show ?thesis by simp
  next
    assume "0 \<le> sint len \<and> sint len + 12 \<le> sint (getFreeSpace p) \<and> nat (sint len) \<le> length rcd"
    then have "slotDirectory p' = slotDirectory p
          @ [\<lparr>offset = freeSpaceOffset (header p), length' = len, isValid = True\<rparr>]"
      using insertRecord_fits [OF assms(1), of len rcd] ins by auto
    with assms(2) pos show ?thesis by (auto simp add: positive_lengths_def)
  qed
next
  case (DeleteRecord slotId)
  with assms obtain r where "deleteRecord p slotId = Some (r, p')" by auto
  then have "p' = p \<or> p' = compacted p (nat (sint slotId))"
    using deleteRecord_cases [OF assms(1), of slotId] by (auto split: if_splits)
  with assms(2) show ?thesis using compacted_positive by auto
qed

lemma apply_operations_positive:
  assumes "Page_inv p" "positive_lengths p" "apply_operations p xs = Some p'"
    and "\<forall>record len. InsertRecord record len \<in> set xs \<longrightarrow> 0 <s len"
  shows "positive_lengths p'"
  using assms
proof (induction xs arbitrary: p)
  case Nil
  then show ?case by simp
next
  case (Cons x xs)
  from Cons.prems(3) obtain q where q: "apply_operation p x = Some q" "apply_operations q xs = Some p'"
    by (auto split: option.splits)
  have "Page_inv q" using Cons.prems(1) q(1) by (rule apply_operation_inv)
  moreover have "positive_lengths q"
    using Cons.prems(1,2) q(1) Cons.prems(4) by (intro apply_operation_positive [of p x q]) auto
  ultimately show ?case using q(2) Cons.prems(4) by (intro Cons.IH) auto
qed

theorem compaction_invariant_witness:
  "apply_operations Page_init scenario = Some scenario_page
   \<and> (\<exists>i<length (slotDirectory scenario_page).
         sint (offset (slotDirectory scenario_page ! i)) \<le> 4
         \<and> 4 < sint (offset (slotDirectory scenario_page ! i))
                 + sint (length' (slotDirectory scenario_page ! i)))
   \<and> sint (offset (slotDirectory scenario_page ! 1)) + sint (length' (slotDirectory scenario_page ! 1))
       \<le> sint (freeSpaceOffset (header scenario_page))
   \<and> (sint (offset (slotDirectory scenario_page ! 0)) + sint (length' (slotDirectory scenario_page ! 0))
         \<le> sint (offset (slotDirectory scenario_page ! 1))
       \<or> sint (offset (slotDirectory scenario_page ! 1)) + sint (length' (slotDirectory scenario_page ! 1))
         \<le> sint (offset (slotDirectory scenario_page ! 0)))"
proof -
  note c = compaction_invariant [OF scenario_run]
  have len: "length (slotDirectory scenario_page) = 2"
    and fso: "sint (freeSpaceOffset (header scenario_page)) = 9"
    and valid: "isValid (slotDirectory scenario_page ! 0)" "isValid (slotDirectory scenario_page ! 1)"
    by (simp_all add: scenario_page_def)
  from c fso have "\<exists>i<length (slotDirectory scenario_page). isValid (slotDirectory scenario_page ! i)
         \<and> sint (offset (slotDirectory scenario_page ! i)) \<le> 4
         \<and> 4 < sint (offset (slotDirectory scenario_page ! i))
                 + sint (length' (slotDirectory scenario_page ! i))"
    by simp
  moreover from c len valid
  have "sint (offset (slotDirectory scenario_page ! 1)) + sint (length' (slotDirectory scenario_page ! 1))
       \<le> sint (freeSpaceOffset (header scenario_page))"
    by simp
  moreover from c len valid
  have "sint (offset (slotDirectory scenario_page ! 0)) + sint (length' (slotDirectory scenario_page ! 0))
         \<le> sint (offset (slotDirectory scenario_page ! 1))
       \<or> sint (offset (slotDirectory scenario_page ! 1)) + sint (length' (slotDirectory scenario_page ! 1))
         \<le> sint (offset (slotDirectory scenario_page ! 0))"
    by simp
  ultimately show ?thesis using scenario_run by blast
qed

text \<open>
  C10, as amended.  After any sequence of \<open>insertRecord\<close> and \<open>deleteRecord\<close> calls on
  the empty page: every entry of the slot directory is valid; each record ends where
  the next begins, so slot offsets do not decrease with the index; they increase
  strictly when every insert had a length above 0, as \<open>insertRecord\<close> requires;
  \<open>getRecord\<close> returns \<open>-1\<close> only for a slot id out of range, and \<open>deleteRecord\<close>
  returns, with \<open>false\<close> only for a slot id out of range.
\<close>

theorem no_invalid_slots:
  assumes "apply_operations Page_init ops = Some p"
  shows "(\<forall>i<length (slotDirectory p). isValid (slotDirectory p ! i))
       \<and> (\<forall>i. Suc i < length (slotDirectory p) \<longrightarrow>
            sint (offset (slotDirectory p ! i)) \<le> sint (offset (slotDirectory p ! Suc i))
            \<and> sint (offset (slotDirectory p ! i)) + sint (length' (slotDirectory p ! i))
                = sint (offset (slotDirectory p ! Suc i)))
       \<and> ((\<forall>record len. InsertRecord record len \<in> set ops \<longrightarrow> 0 <s len) \<longrightarrow>
            (\<forall>i. Suc i < length (slotDirectory p) \<longrightarrow>
               sint (offset (slotDirectory p ! i)) < sint (offset (slotDirectory p ! Suc i))))
       \<and> (\<forall>slotId recordBuffer r b. getRecord p slotId recordBuffer = Some (r, b) \<longrightarrow>
            (r = - 1 \<longleftrightarrow> slotId <s 0 \<or> numberOfSlots (header p) \<le>s slotId))
       \<and> (\<forall>slotId. \<exists>r p'. deleteRecord p slotId = Some (r, p')
            \<and> (\<not> r \<longleftrightarrow> slotId <s 0 \<or> numberOfSlots (header p) \<le>s slotId))"
proof -
  from assms(1) have inv: "Page_inv p" using Page_init_inv by (rule apply_operations_inv [rotated])
  from inv have t: "tiles 0 (slotDirectory p) (sint (freeSpaceOffset (header p)))"
    by (simp add: Page_inv_def)
  note b = Page_inv_bounds [OF inv]
  have valid: "isValid (slotDirectory p ! i)" if "i < length (slotDirectory p)" for i
    using tiles_nth(1) [OF t that] .
  have adj: "sint (offset (slotDirectory p ! i)) \<le> sint (offset (slotDirectory p ! Suc i))
            \<and> sint (offset (slotDirectory p ! i)) + sint (length' (slotDirectory p ! i))
                = sint (offset (slotDirectory p ! Suc i))"
    if "Suc i < length (slotDirectory p)" for i
  proof -
    from that have "i < length (slotDirectory p)" by simp
    from tiles_nth(3) [OF t this] tiles_adjacent [OF t that] show ?thesis by simp
  qed
  have strict: "sint (offset (slotDirectory p ! i)) < sint (offset (slotDirectory p ! Suc i))"
    if contract: "\<forall>record len. InsertRecord record len \<in> set ops \<longrightarrow> 0 <s len"
      and i: "Suc i < length (slotDirectory p)" for i
  proof -
    have "positive_lengths Page_init" by (simp add: positive_lengths_def Page_init_def)
    with Page_init_inv have pos: "positive_lengths p"
      using assms contract by (rule apply_operations_positive)
    from i have "slotDirectory p ! i \<in> set (slotDirectory p)" by simp
    with pos have "0 < sint (length' (slotDirectory p ! i))" by (simp add: positive_lengths_def)
    with tiles_adjacent [OF t i] show ?thesis by simp
  qed
  have get: "r = - 1 \<longleftrightarrow> slotId <s 0 \<or> numberOfSlots (header p) \<le>s slotId"
    if g: "getRecord p slotId recordBuffer = Some (r, b)" for slotId recordBuffer r b
  proof (cases "slotId <s 0 \<or> numberOfSlots (header p) \<le>s slotId")
    case True
    with g show ?thesis by (simp add: getRecord_def)
  next
    case False
    then have i: "nat (sint slotId) < length (slotDirectory p)"
      using b by (simp add: word_sless_alt word_sle_eq) linarith
    from tiles_nth(3) [OF t i] have "0 \<le> sint (length' (slotDirectory p ! nat (sint slotId)))" .
    then have "length' (slotDirectory p ! nat (sint slotId)) \<noteq> - 1" by auto
    moreover from g False i valid [OF i]
    have "r = length' (slotDirectory p ! nat (sint slotId))"
      by (auto simp add: getRecord_def Let_def split: Option.bind_splits)
    ultimately show ?thesis using False by simp
  qed
  have del: "\<exists>r p'. deleteRecord p slotId = Some (r, p')
            \<and> (\<not> r \<longleftrightarrow> slotId <s 0 \<or> numberOfSlots (header p) \<le>s slotId)" for slotId
    using deleteRecord_cases [OF inv, of slotId] by (auto split: if_splits)
  from valid adj strict get del show ?thesis by blast
qed

theorem no_invalid_slots_witness:
  "apply_operations Page_init scenario = Some scenario_page
   \<and> isValid (slotDirectory scenario_page ! 0) \<and> isValid (slotDirectory scenario_page ! 1)
   \<and> sint (offset (slotDirectory scenario_page ! 0)) < sint (offset (slotDirectory scenario_page ! 1))
   \<and> sint (offset (slotDirectory scenario_page ! 0)) + sint (length' (slotDirectory scenario_page ! 0))
       = sint (offset (slotDirectory scenario_page ! 1))
   \<and> (\<exists>r p'. deleteRecord scenario_page 2 = Some (r, p') \<and> \<not> r)
   \<and> (\<exists>r p'. deleteRecord scenario_page 1 = Some (r, p') \<and> r)"
proof -
  have contract: "\<forall>record len. InsertRecord record len \<in> set scenario \<longrightarrow> 0 <s len"
    by (auto simp add: scenario_def word_sless_alt)
  note c = no_invalid_slots [OF scenario_run]
  have len: "length (slotDirectory scenario_page) = 2"
    and n: "numberOfSlots (header scenario_page) = 2"
    by (simp_all add: scenario_page_def)
  from c len have "isValid (slotDirectory scenario_page ! 0)" "isValid (slotDirectory scenario_page ! 1)"
    by simp_all
  moreover from c contract len
  have "sint (offset (slotDirectory scenario_page ! 0)) < sint (offset (slotDirectory scenario_page ! 1))"
    by simp
  moreover from c len
  have "sint (offset (slotDirectory scenario_page ! 0)) + sint (length' (slotDirectory scenario_page ! 0))
       = sint (offset (slotDirectory scenario_page ! 1))"
    by simp
  moreover from c have "\<exists>r p'. deleteRecord scenario_page 2 = Some (r, p')
      \<and> (\<not> r \<longleftrightarrow> (2 :: int32) <s 0 \<or> numberOfSlots (header scenario_page) \<le>s 2)"
    by blast
  then have "\<exists>r p'. deleteRecord scenario_page 2 = Some (r, p') \<and> \<not> r"
    using n by (simp add: word_sless_alt word_sle_eq)
  moreover from c have "\<exists>r p'. deleteRecord scenario_page 1 = Some (r, p')
      \<and> (\<not> r \<longleftrightarrow> (1 :: int32) <s 0 \<or> numberOfSlots (header scenario_page) \<le>s 1)"
    by blast
  then have "\<exists>r p'. deleteRecord scenario_page 1 = Some (r, p') \<and> r"
    using n by (simp add: word_sless_alt word_sle_eq)
  ultimately show ?thesis using scenario_run by blast
qed

text \<open>
  The claim as it was stated has the offsets strictly increasing after any sequence.
  \<open>insertRecord\<close> does not check the length: two records of length 0 are both
  accepted and both get offset 0.
\<close>

theorem zero_length_records_share_an_offset:
  "apply_operations Page_init [InsertRecord [] 0, InsertRecord [] 0] = Some two_empty_records
   \<and> length (slotDirectory two_empty_records) = 2
   \<and> sint (offset (slotDirectory two_empty_records ! 0)) = 0
   \<and> sint (offset (slotDirectory two_empty_records ! 1)) = 0"
  by (simp add: two_empty_records_def insertRecord_def Page_init_def getFreeSpace_def memcpy_def
      word_sless_alt dataAreaSize_def PAGE_SIZE_def sizeof_PageHeader_def sizeof_Slot_def)

text \<open>
  C2.  The claim: for every record length above 0, \<open>insertRecord\<close> returns \<open>-1\<close> exactly
  when \<open>freeSpace() < length + S\<close>.  For lengths up to \<open>2^31 - 13\<close> that is
  \<open>insertRecord_full\<close> and \<open>insertRecord_fits\<close> above.  Beyond, \<open>int requiredSpace =
  length + sizeof(Slot)\<close> does not fit an \<open>int\<close>: on the empty page and a record of
  \<open>2147483647\<close> bytes the free space 4072 is less than \<open>length + 12\<close>, yet the test
  \<open>getFreeSpace() < requiredSpace\<close> fails and \<open>memcpy\<close> copies the record over the end
  of the 4072-byte array instead of the function returning \<open>-1\<close>.
\<close>

theorem insertRecord_length_overflow:
  "sint (getFreeSpace Page_init) = 4072
   \<and> sint (getFreeSpace Page_init) < sint (2147483647 :: int32) + 12
   \<and> sint ((2147483647 :: int32) + of_nat sizeof_Slot) = - 2147483637
   \<and> \<not> getFreeSpace Page_init <s 2147483647 + of_nat sizeof_Slot
   \<and> insertRecord Page_init record 2147483647 = None"
  by (simp add: insertRecord_def getFreeSpace_def Page_init_def memcpy_def word_sless_alt
      dataAreaSize_def PAGE_SIZE_def sizeof_PageHeader_def sizeof_Slot_def)

text \<open>
  On a page built from the empty page the slots after the deleted one are the slots
  with a greater offset (or, after a record of length 0, the same offset, from which 0
  is subtracted): there the loop over positions reduces exactly the greater offsets.
\<close>

lemma compacted_by_offset:
  assumes "Page_inv p" "i < length (slotDirectory p)" "j < length (slotDirectory p)" "j \<noteq> i"
  shows "offset (slotDirectory (compacted p i) ! (if j < i then j else j - 1))
    = (if sint (offset (slotDirectory p ! i)) < sint (offset (slotDirectory p ! j))
       then offset (slotDirectory p ! j) - length' (slotDirectory p ! i)
       else offset (slotDirectory p ! j))"
proof -
  let ?dir = "slotDirectory p"
  let ?len = "length' (?dir ! i)"
  from assms(1) have t: "tiles 0 ?dir (sint (freeSpaceOffset (header p)))"
    by (simp add: Page_inv_def)
  have dir': "slotDirectory (compacted p i)
      = take i ?dir @ map (\<lambda>s. s\<lparr>offset := offset s - ?len\<rparr>) (drop (Suc i) ?dir)"
    by (simp add: compacted_def Let_def)
  show ?thesis
  proof (cases "j < i")
    case True
    from tiles_ordered [OF t True assms(2)] tiles_nth(3) [OF t assms(3)]
    have "\<not> sint (offset (?dir ! i)) < sint (offset (?dir ! j))" by simp
    with True assms(2) show ?thesis by (simp add: dir' nth_append)
  next
    case False
    with assms(4) have ij: "i < j" by simp
    then have "Suc i + (j - 1 - i) = j" by simp
    then have nth: "slotDirectory (compacted p i) ! (j - 1)
        = (?dir ! j)\<lparr>offset := offset (?dir ! j) - ?len\<rparr>"
      using ij assms(2,3) by (simp add: dir' nth_append min_def)
    show ?thesis
    proof (cases "sint (offset (?dir ! i)) < sint (offset (?dir ! j))")
      case True
      with False nth show ?thesis by simp
    next
      case notgreater: False
      from tiles_ordered [OF t ij assms(3)] tiles_nth(3) [OF t assms(2)] notgreater
      have "sint ?len = 0" by simp
      then have "?len = 0" by (metis signed_0 signed_word_eqI)
      with False notgreater nth show ?thesis by simp
    qed
  qed
qed

lemma deleteRecord_by_offset_on_built_pages:
  assumes "apply_operations Page_init ops = Some p"
    and "deleteRecord p slotId = Some (True, p')"
    and "j < length (slotDirectory p)" "j \<noteq> nat (sint slotId)"
  shows "offset (slotDirectory p' ! (if j < nat (sint slotId) then j else j - 1))
    = (if sint (offset (slotDirectory p ! nat (sint slotId))) < sint (offset (slotDirectory p ! j))
       then offset (slotDirectory p ! j) - length' (slotDirectory p ! nat (sint slotId))
       else offset (slotDirectory p ! j))"
proof -
  from assms(1) have inv: "Page_inv p" using Page_init_inv by (rule apply_operations_inv [rotated])
  from deleteRecord_cases [OF inv, of slotId] assms(2)
  have "nat (sint slotId) < length (slotDirectory p)" "p' = compacted p (nat (sint slotId))"
    by (auto split: if_splits)
  with compacted_by_offset [OF inv _ assms(3,4)] show ?thesis by simp
qed

text \<open>
  C3, as amended.  On every page whose slot vector has \<open>numberOfSlots\<close> entries, for
  every slot id in range whose slot is valid and whose record lies inside
  \<open>data[0..freeSpaceOffset)\<close>: \<open>deleteRecord\<close> returns \<open>true\<close>; the bytes
  \<open>[offset+length, freeSpaceOffset)\<close> move left by \<open>length\<close>; \<open>freeSpaceOffset\<close> drops by
  \<open>length\<close> and \<open>numberOfSlots\<close> by 1; the slot leaves the directory, the slots before
  it stay as they are, and every slot after it moves down one position with \<open>length\<close>
  subtracted from its offset; the dirty flag is set.
\<close>

theorem deleteRecord_compacts:
  fixes p :: Page and slotId :: int32
  defines "i \<equiv> nat (sint slotId)"
  defines "off \<equiv> sint (offset (slotDirectory p ! i))"
    and "len \<equiv> sint (length' (slotDirectory p ! i))"
    and "fso \<equiv> sint (freeSpaceOffset (header p))"
  assumes "0 \<le> sint slotId" "sint slotId < sint (numberOfSlots (header p))"
    and "sint (numberOfSlots (header p)) = int (length (slotDirectory p))"
    and "isValid (slotDirectory p ! i)"
    and "0 \<le> off" "0 \<le> len" "off + len \<le> fso" "fso \<le> int (length (data p))"
  shows "\<exists>p'. deleteRecord p slotId = Some (True, p')
       \<and> data p' = take (nat off) (data p)
                    @ take (nat (fso - (off + len))) (drop (nat (off + len)) (data p))
                    @ drop (nat (fso - len)) (data p)
       \<and> freeSpaceOffset (header p') = freeSpaceOffset (header p) - length' (slotDirectory p ! i)
       \<and> numberOfSlots (header p') = numberOfSlots (header p) - 1
       \<and> slotDirectory p' = take i (slotDirectory p)
            @ map (\<lambda>s. s\<lparr>offset := offset s - length' (slotDirectory p ! i)\<rparr>)
                (drop (Suc i) (slotDirectory p))
       \<and> (\<forall>j<i. slotDirectory p' ! j = slotDirectory p ! j)
       \<and> (\<forall>j. i \<le> j \<and> Suc j < length (slotDirectory p) \<longrightarrow>
            slotDirectory p' ! j = (slotDirectory p ! Suc j)
              \<lparr>offset := offset (slotDirectory p ! Suc j) - length' (slotDirectory p ! i)\<rparr>)
       \<and> dirty (header p')
       \<and> pageId (header p') = pageId (header p) \<and> lsn (header p') = lsn (header p)"
proof -
  have eq: "deleteRecord p slotId = Some (True, compacted p i)"
    unfolding i_def using assms(5-) unfolding i_def off_def len_def fso_def
    by (intro deleteRecord_effect) simp_all
  have i: "i < length (slotDirectory p)" using assms(5-7) by (simp add: i_def)
  have before: "(take i (slotDirectory p) @ xs) ! j = slotDirectory p ! j" if "j < i" for j xs
    using that i by (simp add: nth_append)
  have after: "(take i (slotDirectory p)
            @ map (\<lambda>s. s\<lparr>offset := offset s - length' (slotDirectory p ! i)\<rparr>)
                (drop (Suc i) (slotDirectory p))) ! j
      = (slotDirectory p ! Suc j)\<lparr>offset := offset (slotDirectory p ! Suc j) - length' (slotDirectory p ! i)\<rparr>"
    if "i \<le> j" "Suc j < length (slotDirectory p)" for j
  proof -
    have "Suc i + (j - i) = Suc j" using that by simp
    with that i show ?thesis by (simp add: nth_append min_def)
  qed
  show ?thesis
    using eq before after
    by (simp add: compacted_def Let_def off_def len_def fso_def)
qed

text \<open>Deleting slot 0 of the page that holds \<open>alpha\<close>, \<open>beta\<close>, \<open>gamma\<close>.\<close>

theorem deleteRecord_compacts_witness:
  "\<exists>p'. deleteRecord three_records 0 = Some (True, p')
     \<and> data p' = [98, 101, 116, 97, 103, 97, 109, 109, 97, 103, 97, 109, 109, 97] @ replicate 4058 0
     \<and> freeSpaceOffset (header p') = 9 \<and> numberOfSlots (header p') = 2
     \<and> slotDirectory p' = [\<lparr>offset = 0, length' = 4, isValid = True\<rparr>,
                            \<lparr>offset = 4, length' = 5, isValid = True\<rparr>]"
  using deleteRecord_compacts [of 0 three_records]
  by (simp add: three_records_def) blast

text \<open>
  The claim as it was stated has the offsets of the surviving slots with a greater
  \<open>offset\<close> reduced, on every page.  The loop goes by position: on the page whose
  directory is \<open>[{offset 5, length 4}, {offset 0, length 5}]\<close>, deleting slot 1 (offset 0)
  leaves the other slot, whose offset 5 is greater, at offset 5.
\<close>

theorem deleteRecord_by_position_not_offset:
  "deleteRecord unordered_page 1 =
     Some (True,
       \<lparr>header = \<lparr>pageId = 0, dirty = True, lsn = 0, freeSpaceOffset = 4, numberOfSlots = 1\<rparr>,
        data = [98, 101, 116, 97, 97, 98, 101, 116, 97] @ replicate 4063 0,
        slotDirectory = [\<lparr>offset = 5, length' = 4, isValid = True\<rparr>]\<rparr>)
   \<and> sint (offset (slotDirectory unordered_page ! 1)) < sint (offset (slotDirectory unordered_page ! 0))"
  by (simp add: unordered_page_def deleteRecord_def memcpy_def word_sless_alt word_sle_eq erase_def Let_def)

section \<open>serialize and deserialize\<close>

lemma length_to_bytes [simp]: "length (to_bytes n w) = n"
  by (induction n arbitrary: w) auto

lemma from_to_bytes:
  "from_bytes (to_bytes n (w :: 'a::len word)) = (take_bit (8 * n) w :: 'a word)"
proof (induction n arbitrary: w)
  case 0
  then show ?case by simp
next
  case (Suc n)
  have "(ucast (ucast w :: byte) :: 'a word) OR push_bit 8 (take_bit (8 * n) (drop_bit 8 w))
      = take_bit (8 * Suc n) w"
  proof (rule bit_word_eqI)
    fix k
    assume k: "k < LENGTH('a)"
    show "bit ((ucast (ucast w :: byte) :: 'a word) OR push_bit 8 (take_bit (8 * n) (drop_bit 8 w))) k
        = bit (take_bit (8 * Suc n) w) k"
    proof (cases "k < 8")
      case True
      then show ?thesis using k by (auto simp add: bit_simps)
    next
      case False
      then have "8 + (k - 8) = k" by simp
      with False show ?thesis using k by (auto simp add: bit_simps)
    qed
  qed
  then show ?case by (simp add: Suc)
qed

lemma from_to_bytes_32 [simp]: "from_bytes (to_bytes 4 (w :: int32)) = w"
  by (simp only: from_to_bytes) (simp add: take_bit_word_eq_self)

lemma from_to_bytes_64 [simp]: "from_bytes (to_bytes 8 (w :: int64)) = w"
  by (simp only: from_to_bytes) (simp add: take_bit_word_eq_self)

lemma byte_bool_bool_byte [simp]: "byte_bool [bool_byte b] = b"
  by (simp add: byte_bool_def bool_byte_def)

lemma length_Slot_bytes [simp]: "length (Slot_bytes s) = 12"
  by (simp add: Slot_bytes_def)

lemma length_PageHeader_bytes [simp]: "length (PageHeader_bytes h) = 24"
  by (simp add: PageHeader_bytes_def)

lemma Slot_of_bytes_inverse [simp]: "Slot_of_bytes (Slot_bytes s) = s"
  by (simp add: Slot_of_bytes_def Slot_bytes_def)

lemma PageHeader_of_bytes_inverse [simp]: "PageHeader_of_bytes (PageHeader_bytes h) = h"
  by (simp add: PageHeader_of_bytes_def PageHeader_bytes_def)

lemma length_vector_bytes [simp]: "length (vector_bytes dir) = 12 * length dir"
  by (induction dir) (simp_all add: vector_bytes_def)

lemma vector_of_bytes_inverse [simp]: "vector_of_bytes (length dir) (vector_bytes dir) = dir"
  by (induction dir) (simp_all add: vector_bytes_def)

lemma memcpy_replace:
  assumes "d = int (length xs)" "n = int (length ys)" "length ys \<le> length src"
  shows "memcpy (xs @ ys @ zs) d src 0 n = Some (xs @ take (length ys) src @ zs)"
  using assms by (simp add: memcpy_def)

lemma memcpy_extract:
  assumes "s = int (length xs)" "n = int (length ys)" "length ys \<le> length dst"
  shows "memcpy dst 0 (xs @ ys @ zs) s n = Some (ys @ drop (length ys) dst)"
  using assms by (simp add: memcpy_def)

lemma sint_slotDir:
  fixes n :: int32
  assumes "sint n = int k" "k \<le> 339"
  shows "sint (n * 12) = 12 * int k" "sint (4072 - n * 12) = 4072 - 12 * int k"
proof -
  show m: "sint (n * 12) = 12 * int k"
    using assms by (subst sint_mul_exact) simp_all
  show "sint (4072 - n * 12) = 4072 - 12 * int k"
    using assms m by (subst sint_sub_exact) simp_all
qed

lemma length_resize: "resize dir n = Some dir1 \<Longrightarrow> int (length dir1) = n"
  by (auto simp add: resize_def min_def split: if_splits)

lemma serialize_pieces:
  assumes l0: "length B0 = 24"
    and l1: "int (length B1) = sint (freeSpaceOffset (header p))"
    and l3: "length B3 = 12 * length (slotDirectory p)"
    and total: "length B1 + length B2 + length B3 = 4072"
    and n: "sint (numberOfSlots (header p)) = int (length (slotDirectory p))"
    and d: "length B1 \<le> length (data p)"
  shows "serialize p (B0 @ B1 @ B2 @ B3)
    = Some (PageHeader_bytes (header p) @ take (length B1) (data p) @ B2 @ vector_bytes (slotDirectory p))"
proof -
  let ?hb = "PageHeader_bytes (header p)"
  let ?vb = "vector_bytes (slotDirectory p)"
  have k: "length (slotDirectory p) \<le> 339" using l3 total by simp
  note sd = sint_slotDir [OF n k]
  have m1: "memcpy (B0 @ B1 @ B2 @ B3) 0 ?hb 0 24 = Some (?hb @ B1 @ B2 @ B3)"
    using memcpy_replace [of 0 "[]" 24 B0 ?hb "B1 @ B2 @ B3"] l0 by simp
  have m2: "memcpy (?hb @ B1 @ B2 @ B3) 24 (data p) 0 (sint (freeSpaceOffset (header p)))
      = Some (?hb @ take (length B1) (data p) @ B2 @ B3)"
    using memcpy_replace [of 24 ?hb "sint (freeSpaceOffset (header p))" B1 "data p" "B2 @ B3"] l1 d
    by simp
  have "int (length (?hb @ take (length B1) (data p) @ B2)) = 24 + (4072 - 12 * int (length (slotDirectory p)))"
    using total l3 d by simp
  then have m3: "memcpy ((?hb @ take (length B1) (data p) @ B2) @ B3 @ [])
        (24 + (4072 - 12 * int (length (slotDirectory p)))) ?vb 0 (12 * int (length (slotDirectory p)))
      = Some ((?hb @ take (length B1) (data p) @ B2) @ take (length B3) ?vb @ [])"
    using l3 by (intro memcpy_replace) simp_all
  from m1 m2 m3 show ?thesis
    using sd l3 by (simp add: serialize_def)
qed

lemma deserialize_pieces:
  assumes l1: "int (length recs) = sint (freeSpaceOffset h)"
    and n: "sint (numberOfSlots h) = int (length dir)"
    and total: "length recs + length gap + 12 * length dir = 4072"
    and d: "length recs \<le> length (data q)"
  shows "deserialize q (PageHeader_bytes h @ recs @ gap @ vector_bytes dir)
    = Some (q\<lparr>header := h, data := recs @ drop (length recs) (data q), slotDirectory := dir\<rparr>)"
proof -
  let ?hb = "PageHeader_bytes h"
  let ?vb = "vector_bytes dir"
  have k: "length dir \<le> 339" using total by simp
  note sd = sint_slotDir [OF n k]
  have m1: "memcpy (PageHeader_bytes (header q)) 0 (?hb @ recs @ gap @ ?vb) 0 24 = Some ?hb"
    using memcpy_extract [of 0 "[]" 24 ?hb "PageHeader_bytes (header q)" "recs @ gap @ ?vb"] by simp
  have m2: "memcpy (data q) 0 (?hb @ recs @ gap @ ?vb) 24 (sint (freeSpaceOffset h))
      = Some (recs @ drop (length recs) (data q))"
    using memcpy_extract [of 24 ?hb "sint (freeSpaceOffset h)" recs "data q" "gap @ ?vb"] l1 d by simp
  obtain dir1 where r: "resize (slotDirectory q) (sint (numberOfSlots h)) = Some dir1"
    using n by (simp add: resize_def)
  then have l: "length dir1 = length dir" using length_resize [OF r] n by simp
  have "int (length (?hb @ recs @ gap)) = 24 + (4072 - 12 * int (length dir))"
    using total by simp
  then have m3: "memcpy (vector_bytes dir1) 0 ((?hb @ recs @ gap) @ ?vb @ [])
        (24 + (4072 - 12 * int (length dir))) (12 * int (length dir))
      = Some (?vb @ drop (length ?vb) (vector_bytes dir1))"
    using l by (intro memcpy_extract) simp_all
  from m1 m2 m3 r show ?thesis
    using sd l by (simp add: deserialize_def)
qed

lemma serialize_layout:
  assumes inv: "Page_inv p" and buf: "length buffer = PAGE_SIZE"
  shows "serialize p buffer
    = Some (PageHeader_bytes (header p)
          @ take (nat (sint (freeSpaceOffset (header p)))) (data p)
          @ take (4072 - 12 * length (slotDirectory p) - nat (sint (freeSpaceOffset (header p))))
              (drop (24 + nat (sint (freeSpaceOffset (header p)))) buffer)
          @ vector_bytes (slotDirectory p))"
proof -
  note b = Page_inv_bounds [OF inv]
  from inv have fit: "sint (freeSpaceOffset (header p)) + 12 * int (length (slotDirectory p)) \<le> 4072"
    by (simp add: Page_inv_def)
  define f where "f = nat (sint (freeSpaceOffset (header p)))"
  define g where "g = 4072 - 12 * length (slotDirectory p) - f"
  have fg: "f + g + 12 * length (slotDirectory p) = 4072"
    using fit b by (simp add: f_def g_def)
  define B0 where "B0 = take 24 buffer"
  define B1 where "B1 = take f (drop 24 buffer)"
  define B2 where "B2 = take g (drop (24 + f) buffer)"
  define B3 where "B3 = drop (24 + f + g) buffer"
  have len: "length buffer = 4096" using buf by (simp add: PAGE_SIZE_def)
  have split: "buffer = B0 @ B1 @ B2 @ B3"
    unfolding B0_def B1_def B2_def B3_def
    by (metis add.commute append_take_drop_id drop_drop)
  have l0: "length B0 = 24" using len by (simp add: B0_def)
  have l1: "length B1 = f" using len fg by (simp add: B1_def)
  have l3: "length B3 = 12 * length (slotDirectory p)" using len fg by (simp add: B3_def)
  have l2: "length B2 = g" using len fg by (simp add: B2_def)
  have "serialize p (B0 @ B1 @ B2 @ B3)
      = Some (PageHeader_bytes (header p) @ take (length B1) (data p) @ B2 @ vector_bytes (slotDirectory p))"
    using l0 l1 l2 l3 fg b by (intro serialize_pieces) (simp_all add: f_def)
  moreover have "serialize p buffer = serialize p (B0 @ B1 @ B2 @ B3)"
    by (subst split) (rule refl)
  ultimately have "serialize p buffer
      = Some (PageHeader_bytes (header p) @ take (length B1) (data p) @ B2 @ vector_bytes (slotDirectory p))"
    by (rule trans [rotated])
  then show ?thesis
    unfolding l1 by (simp add: B2_def f_def g_def)
qed

text \<open>
  C1.  For every page \<open>p\<close> built from the empty page by \<open>insertRecord\<close> and
  \<open>deleteRecord\<close> calls, every 4096-byte buffer and every target page \<open>q\<close>:
  \<open>p.serialize(buffer)\<close> and then \<open>q.deserialize(buffer)\<close> both return, and \<open>q\<close> ends
  with the header of \<open>p\<close>, the bytes \<open>data[0..freeSpaceOffset)\<close> of \<open>p\<close> and the slot
  directory of \<open>p\<close>.
\<close>

theorem page_roundtrip:
  assumes "apply_operations Page_init ops = Some p"
    and "length buffer = PAGE_SIZE"
    and "length (data q) = dataAreaSize"
  shows "\<exists>b q'. serialize p buffer = Some b \<and> length b = PAGE_SIZE
       \<and> deserialize q b = Some q'
       \<and> header q' = header p
       \<and> take (nat (sint (freeSpaceOffset (header p)))) (data q')
           = take (nat (sint (freeSpaceOffset (header p)))) (data p)
       \<and> slotDirectory q' = slotDirectory p"
proof -
  from assms(1) have inv: "Page_inv p" using Page_init_inv by (rule apply_operations_inv [rotated])
  note b = Page_inv_bounds [OF inv]
  from inv have fit: "sint (freeSpaceOffset (header p)) + 12 * int (length (slotDirectory p)) \<le> 4072"
    by (simp add: Page_inv_def)
  let ?f = "nat (sint (freeSpaceOffset (header p)))"
  let ?recs = "take ?f (data p)"
  let ?gap = "take (4072 - 12 * length (slotDirectory p) - ?f) (drop (24 + ?f) buffer)"
  let ?b = "PageHeader_bytes (header p) @ ?recs @ ?gap @ vector_bytes (slotDirectory p)"
  have len: "length buffer = 4096" using assms(2) by (simp add: PAGE_SIZE_def)
  have lr: "length ?recs = ?f" using b by simp
  have lg: "length ?gap = 4072 - 12 * length (slotDirectory p) - ?f"
    using len fit b by simp
  have total: "length ?recs + length ?gap + 12 * length (slotDirectory p) = 4072"
    unfolding lr lg using fit b by linarith
  have ser: "serialize p buffer = Some ?b"
    using inv assms(2) by (rule serialize_layout)
  have lb: "length ?b = PAGE_SIZE"
    using total by (simp add: PAGE_SIZE_def del: length_take length_drop)
  have des: "deserialize q ?b
      = Some (q\<lparr>header := header p, data := ?recs @ drop (length ?recs) (data q),
               slotDirectory := slotDirectory p\<rparr>)"
    using total b assms(3) lr
    by (intro deserialize_pieces) (simp_all add: dataAreaSize_def PAGE_SIZE_def sizeof_PageHeader_def)
  have "take ?f (?recs @ drop (length ?recs) (data q)) = ?recs"
    using lr by simp
  with ser lb des show ?thesis by simp
qed

theorem page_roundtrip_witness:
  "apply_operations Page_init scenario = Some scenario_page
   \<and> length (replicate PAGE_SIZE (170 :: byte)) = PAGE_SIZE
   \<and> length (data Page_init) = dataAreaSize
   \<and> (\<exists>b q'. serialize scenario_page (replicate PAGE_SIZE 170) = Some b
         \<and> deserialize Page_init b = Some q'
         \<and> header q' = header scenario_page
         \<and> take 9 (data q') = [98, 101, 116, 97, 103, 97, 109, 109, 97]
         \<and> slotDirectory q' = slotDirectory scenario_page)"
proof -
  have l: "length (replicate PAGE_SIZE (170 :: byte)) = PAGE_SIZE"
    and d: "length (data Page_init) = dataAreaSize"
    by (simp_all add: Page_init_def)
  have "nat (sint (freeSpaceOffset (header scenario_page))) = 9"
    and "take 9 (data scenario_page) = [98, 101, 116, 97, 103, 97, 109, 109, 97]"
    by (simp_all add: scenario_page_def)
  with page_roundtrip [OF scenario_run l d] scenario_run l d show ?thesis
    by (simp del: length_replicate) blast
qed

text \<open>
  The page with the directory out of offset order is what \<open>deserialize\<close> makes of a
  buffer that holds its header, its two records and its two slots.
\<close>

lemma unordered_page_deserialized:
  "deserialize Page_init
     (PageHeader_bytes (header unordered_page) @ [97, 108, 112, 104, 97, 98, 101, 116, 97]
        @ replicate 4039 0 @ vector_bytes (slotDirectory unordered_page))
   = Some unordered_page"
proof -
  have "deserialize Page_init
     (PageHeader_bytes (header unordered_page) @ [97, 108, 112, 104, 97, 98, 101, 116, 97]
        @ replicate 4039 0 @ vector_bytes (slotDirectory unordered_page))
    = Some (Page_init\<lparr>header := header unordered_page,
         data := [97, 108, 112, 104, 97, 98, 101, 116, 97]
                 @ drop (length [97, 108, 112, 104, 97, 98, 101, 116, 97 :: byte]) (data Page_init),
         slotDirectory := slotDirectory unordered_page\<rparr>)"
    by (rule deserialize_pieces)
      (simp_all add: unordered_page_def Page_init_def dataAreaSize_def PAGE_SIZE_def sizeof_PageHeader_def)
  then show ?thesis
    by (simp add: unordered_page_def Page_init_def dataAreaSize_def PAGE_SIZE_def sizeof_PageHeader_def)
qed

section \<open>allocateNewPage\<close>

lemma newPage_inv: "Page_inv (setPageId Page_init n)"
  by (simp add: Page_inv_def Page_init_def setPageId_def)

lemma serialize_newPage:
  assumes "length buffer0 = PAGE_SIZE"
  shows "serialize (setPageId Page_init n) buffer0
    = Some (PageHeader_bytes \<lparr>pageId = n, dirty = False, lsn = 0, freeSpaceOffset = 0, numberOfSlots = 0\<rparr>
            @ drop 24 buffer0)"
  using serialize_layout [OF newPage_inv assms, of n] assms
  by (simp add: Page_init_def setPageId_def vector_bytes_def PAGE_SIZE_def)

lemma allocateNewPage_effect:
  assumes "length buffer0 = PAGE_SIZE"
  shows "allocateNewPage dm buffer0 =
    (if streamFailed dm then Some (- 1, dm)
     else if pageOffset (numPages dm) <s 0 then Some (- 1, dm\<lparr>streamFailed := True\<rparr>)
     else Some (numPages dm,
       (file_write dm (nat (sint (pageOffset (numPages dm))))
          (PageHeader_bytes \<lparr>pageId = numPages dm, dirty = False, lsn = 0, freeSpaceOffset = 0,
                              numberOfSlots = 0\<rparr> @ drop 24 buffer0))
       \<lparr>numPages := numPages dm + 1\<rparr>))"
  using serialize_newPage [OF assms]
  by (simp add: allocateNewPage_def writePage_def file_write_def Let_def)

lemma allocateNewPage_ids:
  assumes "length buffer0 = PAGE_SIZE" "allocateNewPage dm buffer0 = Some (r, dm')"
  shows "if streamFailed dm' then r = - 1 \<and> getNumberOfPages dm' = getNumberOfPages dm
         else r = getNumberOfPages dm \<and> getNumberOfPages dm' = getNumberOfPages dm + 1"
  using assms(2) unfolding allocateNewPage_effect [OF assms(1)]
  by (auto simp add: getNumberOfPages_def file_write_def split: if_splits)

lemma allocateNewPage_in_place:
  assumes "length buffer0 = PAGE_SIZE" "\<not> streamFailed dm"
    and "0 \<le> sint (numPages dm)" "sint (numPages dm) < 524288"
  shows "\<exists>dm'. allocateNewPage dm buffer0 = Some (numPages dm, dm')
     \<and> map (fileBytes dm') [nat (sint (numPages dm)) * PAGE_SIZE ..< nat (sint (numPages dm)) * PAGE_SIZE + PAGE_SIZE]
         = PageHeader_bytes \<lparr>pageId = numPages dm, dirty = False, lsn = 0, freeSpaceOffset = 0,
                              numberOfSlots = 0\<rparr> @ drop 24 buffer0"
proof -
  have off: "sint (pageOffset (numPages dm)) = sint (numPages dm) * 4096"
    using assms(3,4) unfolding pageOffset_def
    by (subst sint_mul_exact) (simp_all add: PAGE_SIZE_def)
  then have pos: "\<not> pageOffset (numPages dm) <s 0" using assms(3) by (simp add: word_sless_alt)
  let ?b = "PageHeader_bytes \<lparr>pageId = numPages dm, dirty = False, lsn = 0, freeSpaceOffset = 0,
                              numberOfSlots = 0\<rparr> @ drop 24 buffer0"
  let ?pos = "nat (sint (numPages dm)) * PAGE_SIZE"
  have l: "length ?b = PAGE_SIZE" using assms(1) by (simp add: PAGE_SIZE_def)
  have p: "nat (sint (pageOffset (numPages dm))) = ?pos"
    using off assms(3) by (simp add: PAGE_SIZE_def nat_mult_distrib)
  have "map (fileBytes (file_write dm ?pos ?b)) [?pos ..< ?pos + length ?b] = ?b"
    by (rule nth_equalityI) (simp_all add: file_write_def del: length_append length_drop)
  with pos assms(2) l p show ?thesis
    unfolding allocateNewPage_effect [OF assms(1)] by simp
qed

lemma id_bytes: "to_bytes 4 (1048576 :: int32) = [0, 0, 16, 0]"
  by code_simp

text \<open>
  C8.  The claim: \<open>allocateNewPage\<close> writes an empty page at index \<open>numPages\<close> and
  returns that id, or \<open>-1\<close> on I/O failure; successful allocations return consecutive
  ids and each adds one to \<open>getNumberOfPages\<close>.  The ids and the count are as claimed
  (\<open>allocateNewPage_ids\<close>, and \<open>allocate_pages_consecutive\<close> below), and below 2 GiB the
  page is written in its place (\<open>allocateNewPage_in_place\<close>).  On a file of 4 GiB the
  offset \<open>numPages_ * PAGE_SIZE\<close>, a product of two \<open>int\<close>s, is 0: the call returns
  1048576 and counts 1048577 pages, but the file keeps its size and the new page's header
  stands at byte 0, over page 0.
\<close>

theorem allocateNewPage_beyond_4GiB:
  "sint (pageOffset (numPages four_gib_file)) = 0
   \<and> (\<exists>dm'. allocateNewPage four_gib_file (replicate PAGE_SIZE 0) = Some (1048576, dm')
         \<and> numPages dm' = 1048577
         \<and> fileSize dm' = 1048576 * 4096
         \<and> map (fileBytes dm') [0, 1, 2, 3] = [0, 0, 16, 0])
   \<and> map (fileBytes four_gib_file) [0, 1, 2, 3] = [255, 255, 255, 255]
   \<and> to_bytes 4 (1048576 :: int32) = [0, 0, 16, 0]"
proof -
  have l: "length (replicate PAGE_SIZE (0 :: byte)) = PAGE_SIZE" by simp
  have off: "pageOffset (numPages four_gib_file) = 0"
    by (simp add: pageOffset_def four_gib_file_def PAGE_SIZE_def)
  show ?thesis
    unfolding allocateNewPage_effect [OF l]
    using off
    by (simp add: four_gib_file_def file_write_def PageHeader_bytes_def id_bytes PAGE_SIZE_def)
qed

lemma allocate_pages_failed:
  assumes "\<forall>b \<in> set bufs. length b = PAGE_SIZE" "streamFailed dm"
    and "allocate_pages dm bufs = Some (ids, dm')"
  shows "streamFailed dm'"
  using assms
proof (induction bufs arbitrary: ids)
  case Nil
  then show ?case by simp
next
  case (Cons b bs)
  then have "allocateNewPage dm b = Some (- 1, dm)"
    by (simp add: allocateNewPage_effect)
  with Cons show ?case by (auto split: Option.bind_splits)
qed

lemma allocate_pages_consecutive:
  assumes "\<forall>b \<in> set bufs. length b = PAGE_SIZE"
    and "allocate_pages dm bufs = Some (ids, dm')" "\<not> streamFailed dm'"
  shows "ids = map (\<lambda>k. getNumberOfPages dm + of_nat k) [0..<length bufs]
       \<and> getNumberOfPages dm' = getNumberOfPages dm + of_nat (length bufs)"
  using assms
proof (induction bufs arbitrary: dm ids)
  case Nil
  then show ?case by simp
next
  case (Cons b bs)
  from Cons.prems(2) obtain r dm1 rs where
    a: "allocateNewPage dm b = Some (r, dm1)" and
    rest: "allocate_pages dm1 bs = Some (rs, dm')" and ids: "ids = r # rs"
    by (auto split: Option.bind_splits)
  have lb: "length b = PAGE_SIZE" and lbs: "\<forall>b \<in> set bs. length b = PAGE_SIZE"
    using Cons.prems(1) by simp_all
  have "\<not> streamFailed dm1"
    using allocate_pages_failed [OF lbs _ rest] Cons.prems(3) by blast
  with allocateNewPage_ids [OF lb a]
  have r: "r = getNumberOfPages dm" "getNumberOfPages dm1 = getNumberOfPages dm + 1" by simp_all
  from Cons.IH [OF lbs rest Cons.prems(3)]
  have "rs = map (\<lambda>k. getNumberOfPages dm1 + of_nat k) [0..<length bs]"
    "getNumberOfPages dm' = getNumberOfPages dm1 + of_nat (length bs)" by simp_all
  with r have "rs = map (\<lambda>k. getNumberOfPages dm + of_nat (Suc k)) [0..<length bs]"
    "getNumberOfPages dm' = getNumberOfPages dm + of_nat (length (b # bs))"
    by (simp_all add: ac_simps)
  moreover have "map (\<lambda>k. getNumberOfPages dm + of_nat k) [0..<length (b # bs)]
      = getNumberOfPages dm # map (\<lambda>k. getNumberOfPages dm + of_nat (Suc k)) [0..<length bs]"
    by (simp add: upt_conv_Cons map_Suc_upt [symmetric] del: upt_Suc of_nat_Suc)
  ultimately show ?case using ids r by simp
qed

section \<open>findVictim and fixPage\<close>

lemma sint_of_nat_small:
  "n < 2 ^ 31 \<Longrightarrow> sint (of_nat n :: int32) = int n"
  by (simp add: signed_of_nat signed_take_bit_int_eq_self)

lemma min_element_loop_spec:
  assumes irrefl: "\<And>a. \<not> cmp a a"
    and trans: "\<And>a b c. cmp a b \<Longrightarrow> cmp b c \<Longrightarrow> cmp a c"
    and negtrans: "\<And>a b c. \<not> cmp a b \<Longrightarrow> \<not> cmp b c \<Longrightarrow> \<not> cmp a c"
    and "result < length pre" "r = pre ! result" "first = length pre"
    and "\<forall>j<length pre. \<not> cmp (pre ! j) r"
    and "\<forall>j<result. cmp r (pre ! j)"
  shows "min_element_loop cmp result r first rest < length (pre @ rest)
    \<and> (\<forall>j<length (pre @ rest).
          \<not> cmp ((pre @ rest) ! j) ((pre @ rest) ! min_element_loop cmp result r first rest))
    \<and> (\<forall>j<min_element_loop cmp result r first rest.
          cmp ((pre @ rest) ! min_element_loop cmp result r first rest) ((pre @ rest) ! j))"
  using assms(4-)
proof (induction rest arbitrary: pre result r first)
  case Nil
  then show ?case by simp
next
  case (Cons x xs)
  show ?case
  proof (cases "cmp x r")
    case True
    have a: "first < length (pre @ [x])" "x = (pre @ [x]) ! first" "Suc first = length (pre @ [x])"
      using Cons.prems by simp_all
    have b: "\<forall>j<length (pre @ [x]). \<not> cmp ((pre @ [x]) ! j) x"
    proof (intro allI impI)
      fix j assume "j < length (pre @ [x])"
      then consider "j < length pre" | "j = length pre" by fastforce
      then show "\<not> cmp ((pre @ [x]) ! j) x"
      proof cases
        case 1
        with Cons.prems have "\<not> cmp (pre ! j) r" by simp
        with True trans have "\<not> cmp (pre ! j) x" by blast
        with 1 show ?thesis by (simp add: nth_append)
      next
        case 2
        then show ?thesis using irrefl by simp
      qed
    qed
    have c: "\<forall>j<first. cmp x ((pre @ [x]) ! j)"
    proof (intro allI impI)
      fix j assume j: "j < first"
      with Cons.prems have "\<not> cmp (pre ! j) r" by simp
      with True negtrans have "cmp x (pre ! j)" by blast
      with j Cons.prems show "cmp x ((pre @ [x]) ! j)" by (simp add: nth_append)
    qed
    from Cons.IH [OF a b c] True show ?thesis by simp
  next
    case False
    have a: "result < length (pre @ [x])" "r = (pre @ [x]) ! result" "Suc first = length (pre @ [x])"
      using Cons.prems by (simp_all add: nth_append)
    have b: "\<forall>j<length (pre @ [x]). \<not> cmp ((pre @ [x]) ! j) r"
      using Cons.prems False by (auto simp add: nth_append less_Suc_eq)
    have c: "\<forall>j<result. cmp r ((pre @ [x]) ! j)"
      using Cons.prems by (auto simp add: nth_append)
    from Cons.IH [OF a b c] False show ?thesis by simp
  qed
qed

lemma min_element_spec:
  assumes irrefl: "\<And>a. \<not> cmp a a"
    and trans: "\<And>a b c. cmp a b \<Longrightarrow> cmp b c \<Longrightarrow> cmp a c"
    and negtrans: "\<And>a b c. \<not> cmp a b \<Longrightarrow> \<not> cmp b c \<Longrightarrow> \<not> cmp a c"
    and "xs \<noteq> []"
  shows "min_element cmp xs < length xs"
    and "\<forall>j<length xs. \<not> cmp (xs ! j) (xs ! min_element cmp xs)"
    and "\<forall>j<min_element cmp xs. cmp (xs ! min_element cmp xs) (xs ! j)"
proof -
  from assms(4) obtain x xs' where xs: "xs = x # xs'" by (cases xs) auto
  have "min_element_loop cmp 0 x 1 xs' < length ([x] @ xs')
    \<and> (\<forall>j<length ([x] @ xs').
          \<not> cmp (([x] @ xs') ! j) (([x] @ xs') ! min_element_loop cmp 0 x 1 xs'))
    \<and> (\<forall>j<min_element_loop cmp 0 x 1 xs'.
          cmp (([x] @ xs') ! min_element_loop cmp 0 x 1 xs') (([x] @ xs') ! j))"
    using irrefl by (intro min_element_loop_spec [OF irrefl trans negtrans]) auto
  then show "min_element cmp xs < length xs"
    and "\<forall>j<length xs. \<not> cmp (xs ! j) (xs ! min_element cmp xs)"
    and "\<forall>j<min_element cmp xs. cmp (xs ! min_element cmp xs) (xs ! j)"
    by (simp_all add: xs min_element_def)
qed

lemma victim_less_order:
  "\<not> victim_less a a"
  "victim_less a b \<Longrightarrow> victim_less b c \<Longrightarrow> victim_less a c"
  "\<not> victim_less a b \<Longrightarrow> \<not> victim_less b c \<Longrightarrow> \<not> victim_less a c"
  by (auto simp add: victim_less_def split: if_splits)

lemma min_element_victim:
  assumes "fs \<noteq> []"
  defines "m \<equiv> min_element victim_less fs"
  shows "m < length fs"
    and "\<forall>j<length fs. \<not> victim_less (fs ! j) (fs ! m)"
    and "\<forall>j<m. victim_less (fs ! m) (fs ! j)"
proof -
  have a: "\<And>a. \<not> victim_less a a"
    by (rule victim_less_order(1))
  have b: "\<And>a b c. victim_less a b \<Longrightarrow> victim_less b c \<Longrightarrow> victim_less a c"
    by (rule victim_less_order(2))
  have c: "\<And>a b c. \<not> victim_less a b \<Longrightarrow> \<not> victim_less b c \<Longrightarrow> \<not> victim_less a c"
    by (rule victim_less_order(3))
  note s = min_element_spec [of victim_less fs, OF a b c assms(1)]
  from s(1) show "m < length fs" by (simp add: m_def)
  from s(2) show "\<forall>j<length fs. \<not> victim_less (fs ! j) (fs ! m)" by (simp add: m_def)
  from s(3) show "\<forall>j<m. victim_less (fs ! m) (fs ! j)" by (simp add: m_def)
qed

lemma findVictim_none:
  assumes "length fs < 2 ^ 31"
  shows "findVictim fs = - 1 \<longleftrightarrow> (\<forall>f \<in> set fs. pinCount f \<noteq> 0)"
proof (cases "fs = []")
  case True
  then show ?thesis by (simp add: findVictim_def min_element_def)
next
  case False
  let ?m = "min_element victim_less fs"
  note m = min_element_victim [OF False]
  have ne: "(of_nat ?m :: int32) \<noteq> - 1"
  proof
    assume "(of_nat ?m :: int32) = - 1"
    then have "sint (of_nat ?m :: int32) = - 1" by simp
    moreover have "sint (of_nat ?m :: int32) = int ?m"
      using m(1) assms by (intro sint_of_nat_small) simp
    ultimately show False by simp
  qed
  show ?thesis
  proof (cases "pinCount (fs ! ?m) = 0")
    case True
    with m(1) have "\<exists>f \<in> set fs. pinCount f = 0" by (metis nth_mem)
    with True m(1) ne show ?thesis by (auto simp add: findVictim_def)
  next
    case pinned: False
    have "pinCount f \<noteq> 0" if "f \<in> set fs" for f
    proof
      assume z: "pinCount f = 0"
      from that obtain j where "j < length fs" "fs ! j = f" by (auto simp add: in_set_conv_nth)
      with m(2) have "\<not> victim_less f (fs ! ?m)" by auto
      with z pinned show False by (simp add: victim_less_def)
    qed
    with pinned show ?thesis by (auto simp add: findVictim_def)
  qed
qed

lemma findVictim_some:
  assumes "length fs < 2 ^ 31" "findVictim fs \<noteq> - 1"
  defines "i \<equiv> nat (sint (findVictim fs))"
  shows "frame_index fs (findVictim fs) = Some i"
    and "i < length fs"
    and "pinCount (fs ! i) = 0"
    and "\<forall>j<length fs. pinCount (fs ! j) = 0 \<longrightarrow> lastAccessTime (fs ! i) \<le> lastAccessTime (fs ! j)"
    and "\<forall>j<i. pinCount (fs ! j) = 0 \<longrightarrow> lastAccessTime (fs ! i) < lastAccessTime (fs ! j)"
proof -
  let ?m = "min_element victim_less fs"
  from assms(2) have v: "findVictim fs = of_nat ?m" and ne: "?m \<noteq> length fs"
    and z: "pinCount (fs ! ?m) = 0"
    by (auto simp add: findVictim_def Let_def split: if_splits)
  have "fs \<noteq> []" using ne by (auto simp add: min_element_def)
  note m = min_element_victim [OF this]
  have s: "sint (of_nat ?m :: int32) = int ?m"
    using m(1) assms by (intro sint_of_nat_small) simp
  then have i: "i = ?m" by (simp add: i_def v)
  show "i < length fs" using m(1) i by simp
  show "frame_index fs (findVictim fs) = Some i"
    using m(1) s i by (simp add: frame_index_def v word_sle_eq)
  show "pinCount (fs ! i) = 0" using z i by simp
  show "\<forall>j<length fs. pinCount (fs ! j) = 0 \<longrightarrow> lastAccessTime (fs ! i) \<le> lastAccessTime (fs ! j)"
    using m(2) z unfolding i by (fastforce simp add: victim_less_def split: if_splits)
  show "\<forall>j<i. pinCount (fs ! j) = 0 \<longrightarrow> lastAccessTime (fs ! i) < lastAccessTime (fs ! j)"
    using m(3) z unfolding i by (fastforce simp add: victim_less_def split: if_splits)
qed

lemma find_if_le: "find_if P xs \<le> length xs"
  by (induction xs) auto

lemma find_if_end: "find_if P xs = length xs \<longleftrightarrow> (\<forall>x \<in> set xs. \<not> P x)"
proof (induction xs)
  case Nil
  then show ?case by simp
next
  case (Cons x xs)
  then show ?case using find_if_le [of P xs] by auto
qed

lemma find_if_found: "find_if P xs \<noteq> length xs \<Longrightarrow> find_if P xs < length xs \<and> P (xs ! find_if P xs)"
proof (induction xs)
  case Nil
  then show ?case by simp
next
  case (Cons x xs)
  then show ?case by auto
qed

lemma frame_index_of_nat:
  "i < length fs \<Longrightarrow> length fs < 2 ^ 31 \<Longrightarrow> frame_index fs (of_nat i) = Some i"
  using sint_of_nat_small [of i] by (simp add: frame_index_def word_sle_eq)

lemma readPage_false:
  "readPage dm pageId' pg = Some (False, dm', pg') \<Longrightarrow> pg' = pg"
  by (auto simp add: readPage_def Let_def split: if_splits Option.bind_splits)

text \<open>
  C5.  When \<open>fixPage\<close> finds the page in no frame and no frame empty (the pool's frames
  fewer than \<open>2^31\<close>, their positions being \<open>int\<close>s): if no frame has \<open>pinCount == 0\<close>,
  it returns \<open>nullptr\<close> and the pool is unchanged.  Otherwise the victim \<open>findVictim\<close>
  chooses has \<open>pinCount == 0\<close>, no unpinned frame has a smaller \<open>lastAccessTime\<close>, and
  every unpinned frame before it has a greater one; and \<open>fixPage\<close> evicts that frame:
  after the write-back of the victim, if it was dirty, it reads the requested page into
  the victim's frame and returns, when the read succeeds, that frame's page, the frame
  pinned once, stamped with the time of the call, dirty as requested and holding the
  requested id, the page table without the victim's old id and with the requested id
  at the victim's position; when the read fails, \<open>nullptr\<close>, the page table without the
  victim's old id.  Whatever it returns, it is \<open>nullptr\<close> or the victim's page, no
  other frame is touched, and the page table is the old one with the victim's old id
  erased before the requested id is entered.
\<close>

theorem victim_selection:
  assumes "pageTable bp pageId' = None"
    and "\<forall>f \<in> set (frames bp). \<not> (pinCount f = 0 \<and> getPageId (page f) = - 1)"
    and "length (frames bp) < 2 ^ 31"
  shows "((\<forall>f \<in> set (frames bp). pinCount f \<noteq> 0) \<longrightarrow>
            fixPage bp pageId' isWrite now buffer0 = Some (None, bp))
       \<and> ((\<exists>f \<in> set (frames bp). pinCount f = 0) \<longrightarrow>
            (\<exists>v<length (frames bp).
               findVictim (frames bp) = of_nat v
               \<and> pinCount (frames bp ! v) = 0
               \<and> (\<forall>j<length (frames bp). pinCount (frames bp ! j) = 0 \<longrightarrow>
                     lastAccessTime (frames bp ! v) \<le> lastAccessTime (frames bp ! j))
               \<and> (\<forall>j<v. pinCount (frames bp ! j) = 0 \<longrightarrow>
                     lastAccessTime (frames bp ! v) < lastAccessTime (frames bp ! j))
               \<and> (\<forall>r bp'. fixPage bp pageId' isWrite now buffer0 = Some (r, bp') \<longrightarrow>
                     (r = None \<or> r = Some v)
                     \<and> length (frames bp') = length (frames bp)
                     \<and> (\<forall>j<length (frames bp). j \<noteq> v \<longrightarrow> frames bp' ! j = frames bp ! j)
                     \<and> (r = None \<longrightarrow>
                           pageTable bp' = (pageTable bp)(getPageId (page (frames bp ! v)) := None))
                     \<and> (r = Some v \<longrightarrow>
                           pageTable bp' = (pageTable bp)(getPageId (page (frames bp ! v)) := None,
                                                          pageId' \<mapsto> of_nat v)
                           \<and> pinCount (frames bp' ! v) = 1
                           \<and> lastAccessTime (frames bp' ! v) = now
                           \<and> isDirty (frames bp' ! v) = isWrite
                           \<and> getPageId (page (frames bp' ! v)) = pageId'))
               \<and> (\<forall>dm1 dm2 pg ok.
                     (if isDirty (frames bp ! v) \<and> getPageId (page (frames bp ! v)) \<noteq> - 1
                      then map_option snd (writePage (diskManager bp) (getPageId (page (frames bp ! v)))
                             (page (frames bp ! v)) buffer0)
                      else Some (diskManager bp)) = Some dm1
                     \<and> readPage dm1 pageId' (page (frames bp ! v)) = Some (ok, dm2, pg) \<longrightarrow>
                     fixPage bp pageId' isWrite now buffer0 =
                       (if ok
                        then Some (Some v, bp\<lparr>diskManager := dm2,
                               frames := (frames bp)[v := (frames bp ! v)
                                 \<lparr>pinCount := 1, lastAccessTime := now, isDirty := isWrite,
                                    page := setPageId pg pageId'\<rparr>],
                               pageTable := (pageTable bp)(getPageId (page (frames bp ! v)) := None,
                                                            pageId' \<mapsto> of_nat v)\<rparr>)
                        else Some (None, bp\<lparr>diskManager := dm2,
                               pageTable := (pageTable bp)(getPageId (page (frames bp ! v)) := None)\<rparr>)))))"
proof -
  let ?fs = "frames bp"
  have same: "(frames bp)[i := (frames bp ! i)\<lparr>page := page (frames bp ! i)\<rparr>] = frames bp" for i
    by (simp add: list_update_same_conv)
  have noempty: "find_if (\<lambda>frame. pinCount frame = 0 \<and> getPageId (page frame) = - 1) ?fs = length ?fs"
    using assms(2) by (simp add: find_if_end)
  have exhausted: "fixPage bp pageId' isWrite now buffer0 = Some (None, bp)"
    if "\<forall>f \<in> set ?fs. pinCount f \<noteq> 0"
  proof -
    from that have "findVictim ?fs = - 1" using findVictim_none [OF assms(3)] by simp
    then show ?thesis using assms(1) noempty by (simp add: fixPage_def)
  qed
  have evict: "\<exists>v<length ?fs.
               findVictim ?fs = of_nat v
               \<and> pinCount (?fs ! v) = 0
               \<and> (\<forall>j<length ?fs. pinCount (?fs ! j) = 0 \<longrightarrow>
                     lastAccessTime (?fs ! v) \<le> lastAccessTime (?fs ! j))
               \<and> (\<forall>j<v. pinCount (?fs ! j) = 0 \<longrightarrow>
                     lastAccessTime (?fs ! v) < lastAccessTime (?fs ! j))
               \<and> (\<forall>r bp'. fixPage bp pageId' isWrite now buffer0 = Some (r, bp') \<longrightarrow>
                     (r = None \<or> r = Some v)
                     \<and> length (frames bp') = length ?fs
                     \<and> (\<forall>j<length ?fs. j \<noteq> v \<longrightarrow> frames bp' ! j = ?fs ! j)
                     \<and> (r = None \<longrightarrow>
                           pageTable bp' = (pageTable bp)(getPageId (page (?fs ! v)) := None))
                     \<and> (r = Some v \<longrightarrow>
                           pageTable bp' = (pageTable bp)(getPageId (page (?fs ! v)) := None,
                                                          pageId' \<mapsto> of_nat v)
                           \<and> pinCount (frames bp' ! v) = 1
                           \<and> lastAccessTime (frames bp' ! v) = now
                           \<and> isDirty (frames bp' ! v) = isWrite
                           \<and> getPageId (page (frames bp' ! v)) = pageId'))
               \<and> (\<forall>dm1 dm2 pg ok.
                     (if isDirty (?fs ! v) \<and> getPageId (page (?fs ! v)) \<noteq> - 1
                      then map_option snd (writePage (diskManager bp) (getPageId (page (?fs ! v)))
                             (page (?fs ! v)) buffer0)
                      else Some (diskManager bp)) = Some dm1
                     \<and> readPage dm1 pageId' (page (?fs ! v)) = Some (ok, dm2, pg) \<longrightarrow>
                     fixPage bp pageId' isWrite now buffer0 =
                       (if ok
                        then Some (Some v, bp\<lparr>diskManager := dm2,
                               frames := ?fs[v := (?fs ! v)
                                 \<lparr>pinCount := 1, lastAccessTime := now, isDirty := isWrite,
                                    page := setPageId pg pageId'\<rparr>],
                               pageTable := (pageTable bp)(getPageId (page (?fs ! v)) := None,
                                                            pageId' \<mapsto> of_nat v)\<rparr>)
                        else Some (None, bp\<lparr>diskManager := dm2,
                               pageTable := (pageTable bp)(getPageId (page (?fs ! v)) := None)\<rparr>)))"
    if "\<exists>f \<in> set ?fs. pinCount f = 0"
  proof -
    from that have ne: "findVictim ?fs \<noteq> - 1" using findVictim_none [OF assms(3)] by simp
    define v where "v = nat (sint (findVictim ?fs))"
    note fv = findVictim_some [OF assms(3) ne, folded v_def]
    have "0 \<le> sint (findVictim ?fs)" using fv(1) by (simp add: frame_index_def word_sle_eq split: if_splits)
    then have fvv: "findVictim ?fs = of_nat v" by (simp add: v_def)
    let ?wb = "if isDirty (?fs ! v) \<and> getPageId (page (?fs ! v)) \<noteq> - 1
                      then map_option snd (writePage (diskManager bp) (getPageId (page (?fs ! v)))
                             (page (?fs ! v)) buffer0)
                      else Some (diskManager bp)"
    let ?res = "\<lambda>ok dm2 pg. if ok
                        then Some (Some v, bp\<lparr>diskManager := dm2,
                               frames := ?fs[v := (?fs ! v)
                                 \<lparr>pinCount := 1, lastAccessTime := now, isDirty := isWrite,
                                    page := setPageId pg pageId'\<rparr>],
                               pageTable := (pageTable bp)(getPageId (page (?fs ! v)) := None,
                                                            pageId' \<mapsto> of_nat v)\<rparr>)
                        else Some (None, bp\<lparr>diskManager := dm2,
                               pageTable := (pageTable bp)(getPageId (page (?fs ! v)) := None)\<rparr>)"
    have eq: "fixPage bp pageId' isWrite now buffer0 =
        ?wb \<bind> (\<lambda>dm1. readPage dm1 pageId' (page (?fs ! v)) \<bind> (\<lambda>(ok, dm2, pg).
          if \<not> ok
          then Some (None, bp\<lparr>diskManager := dm2,
                               frames := ?fs[v := (?fs ! v)\<lparr>page := pg\<rparr>],
                               pageTable := (pageTable bp)(getPageId (page (?fs ! v)) := None)\<rparr>)
          else Some (Some v, bp\<lparr>diskManager := dm2,
                 frames := ?fs[v := (?fs ! v)
                   \<lparr>pinCount := 1, lastAccessTime := now, isDirty := isWrite,
                      page := setPageId pg pageId'\<rparr>],
                 pageTable := (pageTable bp)(getPageId (page (?fs ! v)) := None,
                                              pageId' \<mapsto> of_nat v)\<rparr>)))"
      using noempty ne fv(1) assms(1) fvv [symmetric]
      by (simp add: fixPage_def Let_def split del: if_split cong: if_cong)
    have exact: "fixPage bp pageId' isWrite now buffer0 = ?res ok dm2 pg"
      if w: "?wb = Some dm1" and r: "readPage dm1 pageId' (page (?fs ! v)) = Some (ok, dm2, pg)"
      for dm1 dm2 pg ok
    proof (cases ok)
      case True
      with r show ?thesis unfolding eq w by simp
    next
      case False
      with r readPage_false [of dm1 pageId' "page (?fs ! v)" dm2 pg]
      have "pg = page (?fs ! v)" by simp
      with False r show ?thesis unfolding eq w by (simp add: same)
    qed
    have after: "(r = None \<or> r = Some v)
                     \<and> length (frames bp') = length ?fs
                     \<and> (\<forall>j<length ?fs. j \<noteq> v \<longrightarrow> frames bp' ! j = ?fs ! j)
                     \<and> (r = None \<longrightarrow>
                           pageTable bp' = (pageTable bp)(getPageId (page (?fs ! v)) := None))
                     \<and> (r = Some v \<longrightarrow>
                           pageTable bp' = (pageTable bp)(getPageId (page (?fs ! v)) := None,
                                                          pageId' \<mapsto> of_nat v)
                           \<and> pinCount (frames bp' ! v) = 1
                           \<and> lastAccessTime (frames bp' ! v) = now
                           \<and> isDirty (frames bp' ! v) = isWrite
                           \<and> getPageId (page (frames bp' ! v)) = pageId')"
      if f: "fixPage bp pageId' isWrite now buffer0 = Some (r, bp')" for r bp'
    proof -
      from f obtain dm1 ok dm2 pg where
        w: "?wb = Some dm1" and r: "readPage dm1 pageId' (page (?fs ! v)) = Some (ok, dm2, pg)"
        unfolding eq by (auto split: Option.bind_splits)
      from exact [OF w r] f have res: "?res ok dm2 pg = Some (r, bp')" by simp
      show ?thesis
      proof (cases ok)
        case True
        with res fv(2) show ?thesis
          by (auto simp add: getPageId_def setPageId_def)
      next
        case False
        with res show ?thesis by auto
      qed
    qed
    show ?thesis
    proof (rule exI [of _ v], intro conjI, goal_cases)
      case 1
      show ?case by (rule fv(2))
    next
      case 2
      show ?case by (rule fvv)
    next
      case 3
      show ?case by (rule fv(3))
    next
      case 4
      show ?case by (rule fv(4))
    next
      case 5
      show ?case by (rule fv(5))
    next
      case 6
      show ?case by (intro allI impI after)
    next
      case 7
      show ?case by (intro allI impI) (elim conjE, rule exact)
    qed
  qed
  from exhausted evict show ?thesis by blast
qed

text \<open>
  The pool of two, pages 1 and 2 both unpinned and page 2 used last at the earlier time:
  fixing page 3 evicts page 2 from frame 1, and the page table holds pages 1 and 3.
\<close>

lemma zero_header_bytes:
  "PageHeader_bytes \<lparr>pageId = 0, dirty = False, lsn = 0, freeSpaceOffset = 0, numberOfSlots = 0\<rparr>
    = replicate 24 0"
  by code_simp

lemma deserialize_zero_page:
  assumes "length (data q) = dataAreaSize"
  shows "deserialize q (replicate PAGE_SIZE 0)
    = Some (q\<lparr>header := \<lparr>pageId = 0, dirty = False, lsn = 0, freeSpaceOffset = 0, numberOfSlots = 0\<rparr>,
              slotDirectory := []\<rparr>)"
proof -
  let ?h = "\<lparr>pageId = 0, dirty = False, lsn = 0, freeSpaceOffset = 0, numberOfSlots = 0\<rparr>"
  have "deserialize q (PageHeader_bytes ?h @ [] @ replicate 4072 0 @ vector_bytes [])
      = Some (q\<lparr>header := ?h, data := [] @ drop (length ([] :: byte list)) (data q), slotDirectory := []\<rparr>)"
    by (rule deserialize_pieces) simp_all
  moreover have "PageHeader_bytes ?h @ [] @ replicate 4072 0 @ vector_bytes [] = replicate PAGE_SIZE 0"
    by (simp add: zero_header_bytes vector_bytes_def PAGE_SIZE_def replicate_add [symmetric])
  ultimately show ?thesis by simp
qed

lemma readPage_eight_pages:
  "readPage eight_pages 3 (setPageId Page_init 2) = Some (True, eight_pages, setPageId Page_init 0)"
proof -
  have off: "pageOffset 3 = 12288" by (simp add: pageOffset_def PAGE_SIZE_def)
  have "map (fileBytes eight_pages) [12288 ..< 12288 + PAGE_SIZE] = replicate PAGE_SIZE 0"
    by (simp add: eight_pages_def map_replicate_const)
  moreover have "deserialize (setPageId Page_init 2) (replicate PAGE_SIZE 0) = Some (setPageId Page_init 0)"
    by (subst deserialize_zero_page) (simp_all add: setPageId_def Page_init_def)
  ultimately show ?thesis
    by (simp add: readPage_def off) (simp add: eight_pages_def PAGE_SIZE_def word_sless_alt)
qed

theorem victim_selection_witness:
  "pageTable pool_of_two 3 = None
   \<and> length (frames pool_of_two) < 2 ^ 31
   \<and> findVictim (frames pool_of_two) = 1
   \<and> pinCount (frames pool_of_two ! 1) = 0
   \<and> lastAccessTime (frames pool_of_two ! 1) \<le> lastAccessTime (frames pool_of_two ! 0)
   \<and> readPage eight_pages 3 (page (frames pool_of_two ! 1))
       = Some (True, eight_pages, setPageId Page_init 0)
   \<and> fixPage pool_of_two 3 False 9 (replicate PAGE_SIZE 0)
       = Some (Some 1, pool_of_two
           \<lparr>frames := [resident_frame 1 5,
                        \<lparr>page = setPageId Page_init 3, pinCount = 1, isDirty = False,
                           lastAccessTime = 9\<rparr>],
              pageTable := [1 \<mapsto> 0, 3 \<mapsto> 1]\<rparr>)"
proof -
  have miss: "pageTable pool_of_two 3 = None"
    and noempty: "\<forall>f \<in> set (frames pool_of_two). \<not> (pinCount f = 0 \<and> getPageId (page f) = - 1)"
    and size: "length (frames pool_of_two) < 2 ^ 31"
    and unpinned: "\<exists>f \<in> set (frames pool_of_two). pinCount f = 0"
    and p0: "pinCount (frames pool_of_two ! 0) = 0" "0 < length (frames pool_of_two)"
    by (simp_all add: pool_of_two_def resident_frame_def getPageId_def setPageId_def)
  have fv: "findVictim (frames pool_of_two) = 1"
    by (simp add: findVictim_def min_element_def victim_less_def pool_of_two_def resident_frame_def)
  have pg: "page (frames pool_of_two ! 1) = setPageId Page_init 2"
    and id: "getPageId (setPageId Page_init 2) = 2"
    and clean: "\<not> isDirty (frames pool_of_two ! 1)"
    and dm: "diskManager pool_of_two = eight_pages"
    by (simp_all add: pool_of_two_def resident_frame_def getPageId_def setPageId_def)
  have r: "readPage eight_pages 3 (page (frames pool_of_two ! 1))
       = Some (True, eight_pages, setPageId Page_init 0)"
    unfolding pg by (rule readPage_eight_pages)
  note c = victim_selection [OF miss noempty size, of False 9 "replicate PAGE_SIZE 0",
      THEN conjunct2, THEN mp, OF unpinned]
  from c obtain v where v: "v < length (frames pool_of_two)" "findVictim (frames pool_of_two) = of_nat v"
    "pinCount (frames pool_of_two ! v) = 0"
    "\<forall>j<length (frames pool_of_two). pinCount (frames pool_of_two ! j) = 0 \<longrightarrow>
        lastAccessTime (frames pool_of_two ! v) \<le> lastAccessTime (frames pool_of_two ! j)"
    and fx: "\<forall>dm1 dm2 pg ok.
       (if isDirty (frames pool_of_two ! v) \<and> getPageId (page (frames pool_of_two ! v)) \<noteq> - 1
        then map_option snd (writePage (diskManager pool_of_two)
               (getPageId (page (frames pool_of_two ! v))) (page (frames pool_of_two ! v))
               (replicate PAGE_SIZE 0))
        else Some (diskManager pool_of_two)) = Some dm1
       \<and> readPage dm1 3 (page (frames pool_of_two ! v)) = Some (ok, dm2, pg) \<longrightarrow>
       fixPage pool_of_two 3 False 9 (replicate PAGE_SIZE 0) =
         (if ok
          then Some (Some v, pool_of_two\<lparr>diskManager := dm2,
                 frames := (frames pool_of_two)[v := (frames pool_of_two ! v)
                   \<lparr>pinCount := 1, lastAccessTime := 9, isDirty := False,
                      page := setPageId pg 3\<rparr>],
                 pageTable := (pageTable pool_of_two)
                   (getPageId (page (frames pool_of_two ! v)) := None, 3 \<mapsto> of_nat v)\<rparr>)
          else Some (None, pool_of_two\<lparr>diskManager := dm2,
                 pageTable := (pageTable pool_of_two)
                   (getPageId (page (frames pool_of_two ! v)) := None)\<rparr>))"
    by - (erule exE, elim conjE, rule that, assumption+)
  from v(1,2) fv have v1: "v = 1"
    by (cases v) (simp_all add: pool_of_two_def)
  from fx [unfolded v1, rule_format, of eight_pages True eight_pages "setPageId Page_init 0"] clean r dm
  have "fixPage pool_of_two 3 False 9 (replicate PAGE_SIZE 0) =
      Some (Some 1, pool_of_two\<lparr>diskManager := eight_pages,
                 frames := (frames pool_of_two)[1 := (frames pool_of_two ! 1)
                   \<lparr>pinCount := 1, lastAccessTime := 9, isDirty := False,
                      page := setPageId (setPageId Page_init 0) 3\<rparr>],
                 pageTable := (pageTable pool_of_two)
                   (getPageId (page (frames pool_of_two ! 1)) := None, 3 \<mapsto> 1)\<rparr>)"
    by simp
  also have "pool_of_two\<lparr>diskManager := eight_pages,
                 frames := (frames pool_of_two)[1 := (frames pool_of_two ! 1)
                   \<lparr>pinCount := 1, lastAccessTime := 9, isDirty := False,
                      page := setPageId (setPageId Page_init 0) 3\<rparr>],
                 pageTable := (pageTable pool_of_two)
                   (getPageId (page (frames pool_of_two ! 1)) := None, 3 \<mapsto> 1)\<rparr>
      = pool_of_two
           \<lparr>frames := [resident_frame 1 5,
                        \<lparr>page = setPageId Page_init 3, pinCount = 1, isDirty = False,
                           lastAccessTime = 9\<rparr>],
              pageTable := [1 \<mapsto> 0, 3 \<mapsto> 1]\<rparr>"
    by (auto simp add: pool_of_two_def resident_frame_def getPageId_def setPageId_def Page_init_def
        fun_eq_iff)
  finally have f: "fixPage pool_of_two 3 False 9 (replicate PAGE_SIZE 0)
       = Some (Some 1, pool_of_two
           \<lparr>frames := [resident_frame 1 5,
                        \<lparr>page = setPageId Page_init 3, pinCount = 1, isDirty = False,
                           lastAccessTime = 9\<rparr>],
              pageTable := [1 \<mapsto> 0, 3 \<mapsto> 1]\<rparr>)" .
  from v(3,4) p0 v1 have "pinCount (frames pool_of_two ! 1) = 0"
    "lastAccessTime (frames pool_of_two ! 1) \<le> lastAccessTime (frames pool_of_two ! 0)"
    by auto
  with miss size fv r f show ?thesis by simp
qed

text \<open>
  C9.  \<open>fixPage\<close> on a pool with an unpinned frame, for a page that is not in the page
  table.  With an empty frame: that frame has \<open>pinCount == 0\<close>, and when the read of the
  page into it fails, \<open>fixPage\<close> returns \<open>nullptr\<close> and nothing but the disk manager
  has changed.  With none: the victim has \<open>pinCount == 0\<close>, and when the read fails
  (after the write-back of the victim, if it was dirty), \<open>fixPage\<close> returns \<open>nullptr\<close>
  and the pool has lost the victim's old id from the page table.  And whenever the call
  returns \<open>nullptr\<close>, every frame, so every pin count, is as before, the requested id is
  not in the page table, and the page table is as before or, after an eviction, lacks
  the victim's old id.
\<close>

theorem fixPage_read_failure:
  fixes bp :: BufferPool
  defines "e \<equiv> find_if (\<lambda>frame. pinCount frame = 0 \<and> getPageId (page frame) = - 1) (frames bp)"
  defines "v \<equiv> nat (sint (findVictim (frames bp)))"
  defines "victimPageId \<equiv> getPageId (page (frames bp ! v))"
  assumes "pageTable bp pageId' = None"
    and "\<exists>f \<in> set (frames bp). pinCount f = 0"
    and "length (frames bp) < 2 ^ 31"
  shows "(e \<noteq> length (frames bp) \<longrightarrow>
            e < length (frames bp) \<and> pinCount (frames bp ! e) = 0
            \<and> (\<forall>dm pg. readPage (diskManager bp) pageId' (page (frames bp ! e)) = Some (False, dm, pg) \<longrightarrow>
                  fixPage bp pageId' isWrite now buffer0 = Some (None, bp\<lparr>diskManager := dm\<rparr>)))
       \<and> (e = length (frames bp) \<longrightarrow>
            v < length (frames bp) \<and> pinCount (frames bp ! v) = 0
            \<and> (\<forall>dm1 dm2 pg.
                  (if isDirty (frames bp ! v) \<and> victimPageId \<noteq> - 1
                   then map_option snd (writePage (diskManager bp) victimPageId (page (frames bp ! v)) buffer0)
                   else Some (diskManager bp)) = Some dm1
                  \<and> readPage dm1 pageId' (page (frames bp ! v)) = Some (False, dm2, pg) \<longrightarrow>
                  fixPage bp pageId' isWrite now buffer0
                    = Some (None, bp\<lparr>diskManager := dm2,
                                      pageTable := (pageTable bp)(victimPageId := None)\<rparr>)))
       \<and> (\<forall>bp'. fixPage bp pageId' isWrite now buffer0 = Some (None, bp') \<longrightarrow>
            frames bp' = frames bp
            \<and> pageTable bp' pageId' = None
            \<and> (e \<noteq> length (frames bp) \<longrightarrow> pageTable bp' = pageTable bp)
            \<and> (e = length (frames bp) \<longrightarrow>
                  pageTable bp' = (pageTable bp)(victimPageId := None)
                  \<and> pageTable bp' victimPageId = None))"
proof -
  have same: "(frames bp)[i := (frames bp ! i)\<lparr>page := page (frames bp ! i)\<rparr>] = frames bp" for i
    by (simp add: list_update_same_conv)
  show ?thesis
  proof (cases "e = length (frames bp)")
    case False
    from find_if_found [of _ "frames bp", OF False [unfolded e_def]]
    have e: "e < length (frames bp)" "pinCount (frames bp ! e) = 0"
      by (simp_all add: e_def)
    then have fi: "frame_index (frames bp) (of_nat e) = Some e"
      using assms(6) by (intro frame_index_of_nat)
    have fails: "fixPage bp pageId' isWrite now buffer0 = Some (None, bp\<lparr>diskManager := dm\<rparr>)"
      if r: "readPage (diskManager bp) pageId' (page (frames bp ! e)) = Some (False, dm, pg)" for dm pg
    proof -
      from readPage_false [OF r] have "pg = page (frames bp ! e)" .
      with r False fi assms(4) show ?thesis
        by (simp add: fixPage_def e_def [symmetric] same)
    qed
    have after: "frames bp' = frames bp \<and> pageTable bp' pageId' = None \<and> pageTable bp' = pageTable bp"
      if f: "fixPage bp pageId' isWrite now buffer0 = Some (None, bp')" for bp'
    proof -
      from f False fi assms(4) obtain dm pg where
        r: "readPage (diskManager bp) pageId' (page (frames bp ! e)) = Some (False, dm, pg)"
        by (auto simp add: fixPage_def e_def [symmetric] Let_def
            split: Option.bind_splits if_splits prod.splits)
      from fails [OF r] f have "bp' = bp\<lparr>diskManager := dm\<rparr>" by simp
      with assms(4) show ?thesis by simp
    qed
    from False e fails after show ?thesis by blast
  next
    case True
    from assms(5) have ne: "findVictim (frames bp) \<noteq> - 1"
      using findVictim_none [OF assms(6)] by simp
    note fv = findVictim_some [OF assms(6) ne, folded v_def]
    let ?wb = "if isDirty (frames bp ! v) \<and> victimPageId \<noteq> - 1
                   then map_option snd (writePage (diskManager bp) victimPageId (page (frames bp ! v)) buffer0)
                   else Some (diskManager bp)"
    have eq: "fixPage bp pageId' isWrite now buffer0 =
        ?wb \<bind> (\<lambda>dm1. readPage dm1 pageId' (page (frames bp ! v)) \<bind> (\<lambda>(ok, dm2, pg).
          if \<not> ok
          then Some (None, bp\<lparr>diskManager := dm2,
                               frames := (frames bp)[v := (frames bp ! v)\<lparr>page := pg\<rparr>],
                               pageTable := (pageTable bp)(victimPageId := None)\<rparr>)
          else Some (Some v, bp\<lparr>diskManager := dm2,
                 frames := (frames bp)[v := (frames bp ! v)
                   \<lparr>pinCount := 1, lastAccessTime := now, isDirty := isWrite,
                      page := setPageId pg pageId'\<rparr>],
                 pageTable := (pageTable bp)(victimPageId := None, pageId' \<mapsto> findVictim (frames bp))\<rparr>)))"
      using True ne fv(1) assms(4)
      by (simp add: fixPage_def e_def [symmetric] victimPageId_def Let_def
          split del: if_split cong: if_cong)
    have fails: "fixPage bp pageId' isWrite now buffer0
                    = Some (None, bp\<lparr>diskManager := dm2,
                                      pageTable := (pageTable bp)(victimPageId := None)\<rparr>)"
      if w: "?wb = Some dm1" and r: "readPage dm1 pageId' (page (frames bp ! v)) = Some (False, dm2, pg)"
      for dm1 dm2 pg
    proof -
      from readPage_false [OF r] have pg: "pg = page (frames bp ! v)" .
      show ?thesis unfolding eq w by (simp add: r pg same)
    qed
    have after: "frames bp' = frames bp \<and> pageTable bp' pageId' = None
        \<and> pageTable bp' = (pageTable bp)(victimPageId := None) \<and> pageTable bp' victimPageId = None"
      if f: "fixPage bp pageId' isWrite now buffer0 = Some (None, bp')" for bp'
    proof -
      from f obtain dm1 dm2 pg where
        "?wb = Some dm1" "readPage dm1 pageId' (page (frames bp ! v)) = Some (False, dm2, pg)"
        unfolding eq by (auto split: Option.bind_splits if_splits prod.splits)
      from fails [OF this] f have "bp' = bp\<lparr>diskManager := dm2,
                                      pageTable := (pageTable bp)(victimPageId := None)\<rparr>" by simp
      with assms(4) show ?thesis by simp
    qed
    from True fv(2,3) fails after show ?thesis by blast
  qed
qed

theorem fixPage_read_failure_witness:
  "pageTable pool_of_one 9 = None
   \<and> length (frames pool_of_one) < 2 ^ 31
   \<and> pinCount (frames pool_of_one ! 0) = 0
   \<and> readPage eight_pages 9 (page (frames pool_of_one ! 0))
       = Some (False, eight_pages\<lparr>streamFailed := True\<rparr>, page (frames pool_of_one ! 0))
   \<and> fixPage pool_of_one 9 False 2 (replicate PAGE_SIZE 0)
       = Some (None, pool_of_one\<lparr>diskManager := eight_pages\<lparr>streamFailed := True\<rparr>,
                                 pageTable := (pageTable pool_of_one)(7 := None)\<rparr>)"
proof -
  have miss: "pageTable pool_of_one 9 = None"
    and unpinned: "\<exists>f \<in> set (frames pool_of_one). pinCount f = 0"
    and size: "length (frames pool_of_one) < 2 ^ 31"
    and pin: "pinCount (frames pool_of_one ! 0) = 0"
    by (simp_all add: pool_of_one_def resident_frame_def)
  have e: "find_if (\<lambda>frame. pinCount frame = 0 \<and> getPageId (page frame) = - 1) (frames pool_of_one)
      = length (frames pool_of_one)"
    by (simp add: pool_of_one_def resident_frame_def getPageId_def setPageId_def)
  have v: "nat (sint (findVictim (frames pool_of_one))) = 0"
    by (simp add: pool_of_one_def resident_frame_def findVictim_def min_element_def)
  have id: "getPageId (page (frames pool_of_one ! 0)) = 7"
    and clean: "\<not> isDirty (frames pool_of_one ! 0)"
    and dm: "diskManager pool_of_one = eight_pages"
    by (simp_all add: pool_of_one_def resident_frame_def getPageId_def setPageId_def)
  have r: "readPage eight_pages 9 (page (frames pool_of_one ! 0))
       = Some (False, eight_pages\<lparr>streamFailed := True\<rparr>, page (frames pool_of_one ! 0))"
    by (simp add: readPage_def pageOffset_def eight_pages_def PAGE_SIZE_def word_sless_alt)
  from fixPage_read_failure [OF miss unpinned size, of False 2 "replicate PAGE_SIZE 0"] e
  have "\<forall>dm1 dm2 pg.
          (if isDirty (frames pool_of_one ! nat (sint (findVictim (frames pool_of_one))))
              \<and> getPageId (page (frames pool_of_one ! nat (sint (findVictim (frames pool_of_one))))) \<noteq> - 1
           then map_option snd (writePage (diskManager pool_of_one)
                  (getPageId (page (frames pool_of_one ! nat (sint (findVictim (frames pool_of_one))))))
                  (page (frames pool_of_one ! nat (sint (findVictim (frames pool_of_one)))))
                  (replicate PAGE_SIZE 0))
           else Some (diskManager pool_of_one)) = Some dm1
          \<and> readPage dm1 9 (page (frames pool_of_one ! nat (sint (findVictim (frames pool_of_one)))))
              = Some (False, dm2, pg) \<longrightarrow>
          fixPage pool_of_one 9 False 2 (replicate PAGE_SIZE 0)
            = Some (None, pool_of_one\<lparr>diskManager := dm2,
                 pageTable := (pageTable pool_of_one)
                   (getPageId (page (frames pool_of_one ! nat (sint (findVictim (frames pool_of_one))))) := None)\<rparr>)"
    by blast
  then have "fixPage pool_of_one 9 False 2 (replicate PAGE_SIZE 0)
       = Some (None, pool_of_one\<lparr>diskManager := eight_pages\<lparr>streamFailed := True\<rparr>,
                                 pageTable := (pageTable pool_of_one)(7 := None)\<rparr>)"
    unfolding v id dm using clean r by simp
  with miss size pin r show ?thesis by simp
qed

section \<open>unfixPage\<close>

text \<open>
  C6, as amended.  \<open>unfixPage\<close> for a page id that is not in the page table leaves the
  pool as it is.  For a frame whose \<open>pinCount\<close> is 0 it leaves the pin count at 0 and
  changes nothing but that frame's \<open>isDirty\<close>, set when the argument is true, and its
  \<open>lastAccessTime\<close>, set to the time of the call.  No call changes the page table or the
  disk manager, and none takes a pin count from 0 or above to below 0.
\<close>

theorem unfixPage_guarded:
  "(pageTable bp (getPageId pg) = None \<longrightarrow> unfixPage bp pg isDirty' now = Some bp)
   \<and> (\<forall>index i. pageTable bp (getPageId pg) = Some index \<and> frame_index (frames bp) index = Some i
          \<and> pinCount (frames bp ! i) = 0 \<longrightarrow>
        unfixPage bp pg isDirty' now
          = Some (bp\<lparr>frames := (frames bp)[i := (frames bp ! i)
                     \<lparr>isDirty := isDirty (frames bp ! i) \<or> isDirty', lastAccessTime := now\<rparr>]\<rparr>))
   \<and> (\<forall>bp'. unfixPage bp pg isDirty' now = Some bp' \<longrightarrow>
          pageTable bp' = pageTable bp \<and> diskManager bp' = diskManager bp
          \<and> length (frames bp') = length (frames bp)
          \<and> (\<forall>j<length (frames bp). 0 \<le>s pinCount (frames bp ! j) \<longrightarrow> 0 \<le>s pinCount (frames bp' ! j)))"
proof -
  have unknown: "unfixPage bp pg isDirty' now = Some bp" if "pageTable bp (getPageId pg) = None"
    using that by (simp add: unfixPage_def)
  have unpinned: "unfixPage bp pg isDirty' now
          = Some (bp\<lparr>frames := (frames bp)[i := (frames bp ! i)
                     \<lparr>isDirty := isDirty (frames bp ! i) \<or> isDirty', lastAccessTime := now\<rparr>]\<rparr>)"
    if "pageTable bp (getPageId pg) = Some index" "frame_index (frames bp) index = Some i"
      "pinCount (frames bp ! i) = 0" for index i
    using that by (cases isDirty') (simp_all add: unfixPage_def word_sless_alt Let_def)
  have dec: "0 \<le>s c - 1" if "0 <s c" for c :: int32
  proof -
    from that have "0 < sint c" by (simp add: word_sless_alt)
    then have "sint (c - 1) = sint c - 1"
      using sint_lt [of c] by (subst sint_sub_exact) simp_all
    with \<open>0 < sint c\<close> show ?thesis by (simp add: word_sle_eq)
  qed
  have rest: "pageTable bp' = pageTable bp \<and> diskManager bp' = diskManager bp
          \<and> length (frames bp') = length (frames bp)
          \<and> (\<forall>j<length (frames bp). 0 \<le>s pinCount (frames bp ! j) \<longrightarrow> 0 \<le>s pinCount (frames bp' ! j))"
    if "unfixPage bp pg isDirty' now = Some bp'" for bp'
  proof (cases "pageTable bp (getPageId pg)")
    case None
    with that show ?thesis by (simp add: unfixPage_def)
  next
    case (Some index)
    with that obtain i where i: "frame_index (frames bp) index = Some i"
      by (auto simp add: unfixPage_def Let_def split: Option.bind_splits)
    then have "i < length (frames bp)" by (simp add: frame_index_def split: if_splits)
    with that Some i dec show ?thesis
      by (auto simp add: unfixPage_def Let_def nth_list_update split: if_splits)
  qed
  from unknown unpinned rest show ?thesis by blast
qed

theorem unfixPage_guarded_witness:
  "pageTable pool_of_one (getPageId (setPageId Page_init 3)) = None
   \<and> unfixPage pool_of_one (setPageId Page_init 3) True 2 = Some pool_of_one
   \<and> pageTable pool_of_one (getPageId (setPageId Page_init 7)) = Some 0
   \<and> frame_index (frames pool_of_one) 0 = Some 0
   \<and> pinCount (frames pool_of_one ! 0) = 0
   \<and> unfixPage pool_of_one (setPageId Page_init 7) False 2
       = Some (pool_of_one\<lparr>frames := [resident_frame 7 2]\<rparr>)"
proof -
  have a: "pageTable pool_of_one (getPageId (setPageId Page_init 3)) = None"
    and b: "pageTable pool_of_one (getPageId (setPageId Page_init 7)) = Some 0"
    and c: "frame_index (frames pool_of_one) 0 = Some 0"
    and d: "pinCount (frames pool_of_one ! 0) = 0"
    by (simp_all add: pool_of_one_def resident_frame_def getPageId_def setPageId_def frame_index_def)
  from unfixPage_guarded [of pool_of_one "setPageId Page_init 3" True 2] a
  have "unfixPage pool_of_one (setPageId Page_init 3) True 2 = Some pool_of_one" by blast
  moreover from unfixPage_guarded [of pool_of_one "setPageId Page_init 7" False 2] b c d
  have "unfixPage pool_of_one (setPageId Page_init 7) False 2
      = Some (pool_of_one\<lparr>frames := (frames pool_of_one)[0 := (frames pool_of_one ! 0)
                     \<lparr>isDirty := isDirty (frames pool_of_one ! 0) \<or> False, lastAccessTime := 2\<rparr>]\<rparr>)"
    by blast
  then have "unfixPage pool_of_one (setPageId Page_init 7) False 2
       = Some (pool_of_one\<lparr>frames := [resident_frame 7 2]\<rparr>)"
    by (simp add: pool_of_one_def resident_frame_def)
  ultimately show ?thesis using a b c d by simp
qed

text \<open>
  The claim as it was stated has the whole pool unchanged when the frame's \<open>pinCount\<close> is
  0.  Unfixing, with the dirty mark, the unpinned clean page 7 of the one-frame pool
  makes the frame dirty and moves its \<open>lastAccessTime\<close> from 1 to 2.
\<close>

theorem unfixPage_unpinned_not_noop:
  "pinCount (frames pool_of_one ! 0) = 0
   \<and> unfixPage pool_of_one (page (frames pool_of_one ! 0)) True 2
       = Some (pool_of_one\<lparr>frames :=
           [\<lparr>page = setPageId Page_init 7, pinCount = 0, isDirty = True, lastAccessTime = 2\<rparr>]\<rparr>)
   \<and> pool_of_one\<lparr>frames :=
           [\<lparr>page = setPageId Page_init 7, pinCount = 0, isDirty = True, lastAccessTime = 2\<rparr>]\<rparr>
       \<noteq> pool_of_one"
  by (simp add: unfixPage_def pool_of_one_def resident_frame_def getPageId_def setPageId_def
      frame_index_def word_sless_alt word_sle_eq Let_def)

section \<open>File offsets\<close>

lemma getOffset_exact: "sint (getOffset pageId') = sint pageId' * 4096"
proof -
  have bounds: "- (2 ^ 31) \<le> sint pageId'" "sint pageId' < 2 ^ 31"
    using sint_ge [of pageId'] sint_lt [of pageId'] by simp_all
  then have "sint (scast pageId' :: int64) = sint pageId'"
    by (simp add: signed_scast_eq signed_take_bit_int_eq_self)
  then have "sint (getOffset pageId') = signed_take_bit 63 (sint pageId' * 4096)"
    by (simp add: getOffset_def PAGE_SIZE_def sint_word_ariths)
  moreover note bounds
  then have "- (2 ^ 63) \<le> sint pageId' * 4096" "sint pageId' * 4096 < 2 ^ 63"
    by simp_all
  then have "signed_take_bit 63 (sint pageId' * 4096) = sint pageId' * 4096"
    by (simp add: signed_take_bit_int_eq_self)
  ultimately show ?thesis by simp
qed

text \<open>
  C7.  The claim: the offset \<open>readPage\<close> and \<open>writePage\<close> seek to is the exact product
  \<open>pageId * 4096\<close> also beyond \<open>2^31 - 1\<close>.  The two functions multiply in \<open>int\<close>
  (\<open>getOffset\<close>, which multiplies in \<open>long\<close>, is not called): for page 524288, the first
  page of the third GiB, the offset they compute is \<open>-2147483648\<close>, while the product and
  \<open>getOffset\<close> give \<open>2147483648\<close>.  On a file of 3 GiB, which has that page, the seek to
  the negative offset fails: \<open>readPage\<close> and \<open>writePage\<close> return \<open>false\<close> and leave the
  stream failed.
\<close>

theorem pageOffset_overflows:
  "sint (pageOffset 524288) = - 2147483648
   \<and> sint (524288 :: int32) * 4096 = 2147483648
   \<and> sint (getOffset 524288) = 2147483648
   \<and> (524288 :: int32) <s numPages three_gib_file
   \<and> readPage three_gib_file 524288 pg = Some (False, three_gib_file\<lparr>streamFailed := True\<rparr>, pg)
   \<and> writePage three_gib_file 524288 pg buffer0 = Some (False, three_gib_file\<lparr>streamFailed := True\<rparr>)"
  by (simp add: pageOffset_def getOffset_def PAGE_SIZE_def readPage_def writePage_def
      three_gib_file_def word_sless_alt)

end
